theory Spec2Isabelle
  imports Main
begin

section \<open>JavaScript values\<close>

text \<open>
  The validators read plain data: the records of clients, workers and tasks as they come
  out of a JSON body or a parsed spreadsheet. A value is \<open>undefined\<close>, \<open>null\<close>, a
  boolean, a number, a string, an array or a plain object. Numbers are the integers (the
  data model has no other numeric field); \<open>NaN\<close>, which only arises from a failed
  conversion, is the \<open>None\<close> of an \<open>int option\<close>. Strings are byte strings.
\<close>

datatype jsval =
    JUndef
  | JNull
  | JBool bool
  | JNum int
  | JStr string
  | JArr "jsval list"
  | JObj "(string \<times> jsval) list"

text \<open>What a \<open>throw\<close> carries: the engine's TypeError (a property of \<open>null\<close>, a call of
  something that is no function, \<open>in\<close> on a primitive), the SyntaxError of
  \<open>JSON.parse\<close>, and the \<open>new Error('Not an array')\<close> of \<open>validateDataTypes\<close>.\<close>

datatype js_error = TypeError | SyntaxError | NotAnArray

text \<open>The two built-ins of the runtime that the model does not spell out are parameters
  of every function that reaches them: \<open>JSON.parse\<close> on a string (\<open>None\<close> when it
  throws) and \<open>Number\<close> on a string. \<open>number_of_string\<close> is the integer that \<open>Number\<close>
  reads (\<open>None\<close> when it reads none), and \<open>number_is_infinite\<close> tells whether it reads
  \<open>Infinity\<close>, as it does from the texts \<open>Infinity\<close> and \<open>1e999\<close>; a text with neither
  reads \<open>NaN\<close>. \<open>Infinity\<close> matters where a loop counts up to it, in \<open>parseRange\<close>.\<close>

record runtime =
  json_parse :: "string \<Rightarrow> jsval option"
  number_of_string :: "string \<Rightarrow> int option"
  number_is_infinite :: "string \<Rightarrow> bool"

fun truthy :: "jsval \<Rightarrow> bool" where
  "truthy JUndef = False"
| "truthy JNull = False"
| "truthy (JBool b) = b"
| "truthy (JNum n) = (n \<noteq> 0)"
| "truthy (JStr s) = (s \<noteq> [])"
| "truthy (JArr xs) = True"
| "truthy (JObj kvs) = True"

text \<open>\<open>a || b\<close>\<close>

definition js_or :: "jsval \<Rightarrow> jsval \<Rightarrow> jsval" where
  "js_or a b = (if truthy a then a else b)"

fun is_array :: "jsval \<Rightarrow> bool" where
  "is_array (JArr xs) = True"
| "is_array v = False"

text \<open>Keys of a \<open>Set\<close> or \<open>Map\<close> are compared by SameValueZero: primitives by value,
  arrays and objects by identity. The records of one input are distinct objects, so an
  array or object is never found again.\<close>

fun is_prim :: "jsval \<Rightarrow> bool" where
  "is_prim (JArr xs) = False"
| "is_prim (JObj kvs) = False"
| "is_prim v = True"

definition set_has :: "jsval list \<Rightarrow> jsval \<Rightarrow> bool" where
  "set_has s v = (is_prim v \<and> v \<in> set s)"

definition set_add :: "jsval list \<Rightarrow> jsval \<Rightarrow> jsval list" where
  "set_add s v = (if set_has s v then s else s @ [v])"

subsection \<open>Property access\<close>

text \<open>\<open>v[f]\<close> for a property name \<open>f\<close> that is no array index (the validators read
  named fields and \<open>length\<close>), and \<open>v[0]\<close>.\<close>

fun get_prop :: "jsval \<Rightarrow> string \<Rightarrow> js_error + jsval" where
  "get_prop JUndef f = Inl TypeError"
| "get_prop JNull f = Inl TypeError"
| "get_prop (JObj kvs) f = Inr (case map_of kvs f of None \<Rightarrow> JUndef | Some v \<Rightarrow> v)"
| "get_prop (JArr xs) f = Inr (if f = ''length'' then JNum (int (length xs)) else JUndef)"
| "get_prop (JStr s) f = Inr (if f = ''length'' then JNum (int (length s)) else JUndef)"
| "get_prop v f = Inr JUndef"

fun get_first :: "jsval \<Rightarrow> js_error + jsval" where
  "get_first JUndef = Inl TypeError"
| "get_first JNull = Inl TypeError"
| "get_first (JObj kvs) = Inr (case map_of kvs ''0'' of None \<Rightarrow> JUndef | Some v \<Rightarrow> v)"
| "get_first (JArr xs) = Inr (case xs of [] \<Rightarrow> JUndef | x # _ \<Rightarrow> x)"
| "get_first (JStr s) = Inr (case s of [] \<Rightarrow> JUndef | c # _ \<Rightarrow> JStr [c])"
| "get_first v = Inr JUndef"

text \<open>\<open>f in v\<close>, for a field name \<open>f\<close> of a record.\<close>

fun has_prop :: "string \<Rightarrow> jsval \<Rightarrow> js_error + bool" where
  "has_prop f (JObj kvs) = Inr (f \<in> fst ` set kvs)"
| "has_prop f (JArr xs) = Inr (f = ''length'')"
| "has_prop f v = Inl TypeError"

text \<open>\<open>v.forEach(...)\<close>, \<open>v.map(...)\<close>, \<open>v.filter(...)\<close>: only an array has them.\<close>

fun elements :: "jsval \<Rightarrow> js_error + jsval list" where
  "elements (JArr xs) = Inr xs"
| "elements v = Inl TypeError"

subsection \<open>Exceptions\<close>

fun bindE :: "'e + 'a \<Rightarrow> ('a \<Rightarrow> 'e + 'b) \<Rightarrow> 'e + 'b" where
  "bindE (Inl e) f = Inl e"
| "bindE (Inr x) f = f x"

text \<open>A loop whose body appends findings and may throw: the findings of each element in
  order, or the first exception.\<close>

fun forEachE :: "('a \<Rightarrow> 'e + 'b list) \<Rightarrow> 'a list \<Rightarrow> 'e + 'b list" where
  "forEachE f [] = Inr []"
| "forEachE f (x # xs) =
     bindE (f x) (\<lambda>ys. bindE (forEachE f xs) (\<lambda>zs. Inr (ys @ zs)))"

fun mapE :: "('a \<Rightarrow> 'e + 'b) \<Rightarrow> 'a list \<Rightarrow> 'e + 'b list" where
  "mapE f [] = Inr []"
| "mapE f (x # xs) = bindE (f x) (\<lambda>y. bindE (mapE f xs) (\<lambda>ys. Inr (y # ys)))"

text \<open>The elements of an array with their indices, as \<open>forEach((x, index) => ...)\<close>
  hands them over.\<close>

definition indexed :: "'a list \<Rightarrow> (nat \<times> 'a) list" where
  "indexed xs = zip [0..<length xs] xs"

subsection \<open>Strings and numbers\<close>

text \<open>The texts of the data model are identifiers, skill names and lists of numbers. White
  space is the six characters of ASCII, and \<open>toLowerCase\<close> maps the letters \<open>A\<close> to
  \<open>Z\<close>; the other spaces and letters of Unicode, which \<open>trim\<close> and \<open>toLowerCase\<close> treat
  alike, are left as they are. Numbers print in decimal (the exponent that \<open>String\<close>
  gives a number from \<open>1e21\<close> on is not modelled).\<close>

definition is_space :: "char \<Rightarrow> bool" where
  "is_space c = (c \<in> set [CHR '' '', CHR 0x09, CHR 0x0A, CHR 0x0B, CHR 0x0C, CHR 0x0D])"

definition trim :: "string \<Rightarrow> string" where
  "trim s = rev (dropWhile is_space (rev (dropWhile is_space s)))"

fun split_on :: "char \<Rightarrow> string \<Rightarrow> string list" where
  "split_on c [] = [[]]"
| "split_on c (x # xs) =
     (if x = c then [] # split_on c xs
      else (case split_on c xs of [] \<Rightarrow> [[x]] | y # ys \<Rightarrow> (x # y) # ys))"

definition lower_char :: "char \<Rightarrow> char" where
  "lower_char c =
     (let n = (of_char c :: nat) in if 65 \<le> n \<and> n \<le> 90 then char_of (n + 32) else c)"

definition toLowerCase :: "string \<Rightarrow> string" where
  "toLowerCase s = map lower_char s"

fun join :: "string \<Rightarrow> string list \<Rightarrow> string" where
  "join sep [] = []"
| "join sep [x] = x"
| "join sep (x # y # ys) = x @ sep @ join sep (y # ys)"

definition digit_char :: "nat \<Rightarrow> char" where
  "digit_char n = ''0123456789'' ! (n mod 10)"

fun dec_nat :: "nat \<Rightarrow> string" where
  "dec_nat n = (if n < 10 then [digit_char n] else dec_nat (n div 10) @ [digit_char n])"

definition dec_int :: "int \<Rightarrow> string" where
  "dec_int i = (if i < 0 then CHR ''-'' # dec_nat (nat (- i)) else dec_nat (nat i))"

text \<open>\<open>String(v)\<close>, which is also what a template literal and a property key make of
  a value. Inside an array, \<open>null\<close> and \<open>undefined\<close> print as the empty string.\<close>

fun js_toString :: "jsval \<Rightarrow> string" where
  "js_toString JUndef = ''undefined''"
| "js_toString JNull = ''null''"
| "js_toString (JBool b) = (if b then ''true'' else ''false'')"
| "js_toString (JNum n) = dec_int n"
| "js_toString (JStr s) = s"
| "js_toString (JArr xs) =
     join '','' (map (\<lambda>x. if x = JUndef \<or> x = JNull then [] else js_toString x) xs)"
| "js_toString (JObj kvs) = ''[object Object]''"

text \<open>\<open>xs.join(sep)\<close>\<close>

definition js_join :: "string \<Rightarrow> jsval list \<Rightarrow> string" where
  "js_join sep xs = join sep (map (\<lambda>x. if x = JUndef \<or> x = JNull then [] else js_toString x) xs)"

definition digit_val :: "char \<Rightarrow> nat option" where
  "digit_val c =
     (let n = (of_char c :: nat) in
      if 48 \<le> n \<and> n \<le> 57 then Some (n - 48)
      else if 97 \<le> n \<and> n \<le> 102 then Some (n - 87)
      else if 65 \<le> n \<and> n \<le> 70 then Some (n - 55)
      else None)"

text \<open>The value of the longest prefix of digits below the radix; \<open>None\<close> when there is
  no digit.\<close>

fun digits_prefix :: "nat \<Rightarrow> nat option \<Rightarrow> string \<Rightarrow> nat option" where
  "digits_prefix radix acc [] = acc"
| "digits_prefix radix acc (c # cs) =
     (case digit_val c of
        None \<Rightarrow> acc
      | Some d \<Rightarrow>
          if d < radix
          then digits_prefix radix (Some ((case acc of None \<Rightarrow> 0 | Some a \<Rightarrow> a) * radix + d)) cs
          else acc)"

definition parse_unsigned :: "string \<Rightarrow> nat option" where
  "parse_unsigned s =
     (case s of
        c # x # rest \<Rightarrow>
          if c = CHR ''0'' \<and> (x = CHR ''x'' \<or> x = CHR ''X'') then digits_prefix 16 None rest
          else digits_prefix 10 None s
      | _ \<Rightarrow> digits_prefix 10 None s)"

text \<open>\<open>parseInt(s)\<close> of a string, with no radix given.\<close>

definition parseInt_string :: "string \<Rightarrow> int option" where
  "parseInt_string s =
     (case dropWhile is_space s of
        [] \<Rightarrow> None
      | c # cs \<Rightarrow>
          if c = CHR ''-'' then map_option (\<lambda>n. - int n) (parse_unsigned cs)
          else if c = CHR ''+'' then map_option int (parse_unsigned cs)
          else map_option int (parse_unsigned (c # cs)))"

definition parseInt :: "jsval \<Rightarrow> int option" where
  "parseInt v = parseInt_string (js_toString v)"

text \<open>\<open>Number(v)\<close>, the conversion a comparison applies to an operand.\<close>

fun to_number :: "runtime \<Rightarrow> jsval \<Rightarrow> int option" where
  "to_number rt JUndef = None"
| "to_number rt JNull = Some 0"
| "to_number rt (JBool b) = Some (if b then 1 else 0)"
| "to_number rt (JNum n) = Some n"
| "to_number rt (JStr s) = number_of_string rt s"
| "to_number rt (JArr xs) = number_of_string rt (js_toString (JArr xs))"
| "to_number rt (JObj kvs) = None"

text \<open>\<open>a < b\<close> and \<open>a > b\<close> on numbers: false as soon as one side is \<open>NaN\<close>.\<close>

fun num_lt :: "int option \<Rightarrow> int option \<Rightarrow> bool" where
  "num_lt (Some a) (Some b) = (a < b)"
| "num_lt a b = False"

definition num_gt :: "int option \<Rightarrow> int option \<Rightarrow> bool" where
  "num_gt a b = num_lt b a"

text \<open>\<open>a + b\<close> on numbers.\<close>

fun num_add :: "int option \<Rightarrow> int option \<Rightarrow> int option" where
  "num_add (Some a) (Some b) = Some (a + b)"
| "num_add a b = None"


section \<open>GraphUtils\<close>

text \<open>
  A graph is a \<open>Map\<close> from a node to the \<open>Set\<close> of its successors. Both keep insertion
  order, and every loop of the source runs in that order: the map is the list of its
  entries and a set is the list of its elements. A \<open>Map\<close> holds a key once and a
  \<open>Set\<close> an element once.
\<close>

type_synonym 'a graph = "('a \<times> 'a list) list"

definition is_map_of_sets :: "'a graph \<Rightarrow> bool" where
  "is_map_of_sets g = (distinct (map fst g) \<and> list_all (\<lambda>e. distinct (snd e)) g)"

text \<open>\<open>map.set(k, v)\<close>: the value of an existing key is replaced where it stands, a new
  key goes last.\<close>

fun map_set :: "('k \<times> 'v) list \<Rightarrow> 'k \<Rightarrow> 'v \<Rightarrow> ('k \<times> 'v) list" where
  "map_set [] k v = [(k, v)]"
| "map_set ((k', v') # m) k v = (if k' = k then (k, v) # m else (k', v') # map_set m k v)"

definition map_has :: "('k \<times> 'v) list \<Rightarrow> 'k \<Rightarrow> bool" where
  "map_has m k = (k \<in> set (map fst m))"

text \<open>\<open>set.add(x)\<close>\<close>

definition add_node :: "'a list \<Rightarrow> 'a \<Rightarrow> 'a list" where
  "add_node s x = (if x \<in> set s then s else s @ [x])"

text \<open>\<open>graph.get(node) || new Set()\<close>\<close>

definition neighbors :: "'a graph \<Rightarrow> 'a \<Rightarrow> 'a list" where
  "neighbors g n = (case map_of g n of None \<Rightarrow> [] | Some ns \<Rightarrow> ns)"

definition createGraph :: "'a list \<Rightarrow> 'a graph" where
  "createGraph nodes = foldl (\<lambda>g node. map_set g node []) [] nodes"

definition addEdge :: "'a graph \<Rightarrow> 'a \<Rightarrow> 'a \<Rightarrow> 'a graph" where
  "addEdge g from to =
     (let g1 = (if map_has g from then g else map_set g from []);
          g2 = (if map_has g1 to then g1 else map_set g1 to [])
      in map_set g2 from (add_node (neighbors g2 from) to))"

definition addBidirectionalEdge :: "'a graph \<Rightarrow> 'a \<Rightarrow> 'a \<Rightarrow> 'a graph" where
  "addBidirectionalEdge g nodeA nodeB = addEdge (addEdge g nodeA nodeB) nodeB nodeA"

subsection \<open>detectCycles\<close>

text \<open>Every node the graph mentions, as a key or as a successor.\<close>

definition all_nodes :: "'a graph \<Rightarrow> 'a set" where
  "all_nodes g = set (map fst g) \<union> set (concat (map snd g))"

text \<open>\<open>path.slice(path.indexOf(node))\<close> followed by \<open>push(node)\<close>. When the node is not
  on the path, \<open>indexOf\<close> is \<open>-1\<close> and the slice is the last element of the path.\<close>

definition cycle_of :: "'a list \<Rightarrow> 'a \<Rightarrow> 'a list" where
  "cycle_of path node =
     (if node \<in> set path then dropWhile (\<lambda>x. x \<noteq> node) path
      else if path = [] then [] else [last path]) @ [node]"

text \<open>The closure \<open>dfs\<close> works on two sets that outlive its calls, \<open>visited\<close> and
  \<open>recursionStack\<close>: they are the state, handed in and returned. \<open>dfs_each\<close> is the
  \<open>for\<close> loop over the successors, which returns at the first cycle. A call that returns
  a cycle leaves its nodes on the recursion stack, as the source does.\<close>

type_synonym 'a dfs_state = "'a list \<times> 'a list"

function dfs :: "'a graph \<Rightarrow> 'a \<Rightarrow> 'a list \<Rightarrow> 'a dfs_state \<Rightarrow> 'a list option \<times> 'a dfs_state"
  and dfs_each :: "'a graph \<Rightarrow> 'a list \<Rightarrow> 'a list \<Rightarrow> 'a dfs_state \<Rightarrow> 'a list option \<times> 'a dfs_state"
where
  "dfs g node path (visited, recStack) =
     (if node \<in> set recStack then (Some (cycle_of path node), (visited, recStack))
      else if node \<in> set visited then (None, (visited, recStack))
      else (case dfs_each g (neighbors g node) (path @ [node]) (node # visited, node # recStack) of
              (Some cycle, st) \<Rightarrow> (Some cycle, st)
            | (None, (visited', recStack')) \<Rightarrow> (None, (visited', removeAll node recStack'))))"
| "dfs_each g [] path st = (None, st)"
| "dfs_each g (n # ns) path st =
     (case dfs g n path st of
        (Some cycle, st') \<Rightarrow> (Some cycle, st')
      | (None, st') \<Rightarrow> dfs_each g ns path st')"
  by pat_completeness auto

lemma finite_all_nodes: "finite (all_nodes g)"
  by (simp add: all_nodes_def)

lemma neighbors_subset: "set (neighbors g n) \<subseteq> all_nodes g"
proof
  fix x assume a: "x \<in> set (neighbors g n)"
  then obtain ns where "map_of g n = Some ns" "x \<in> set ns"
    by (cases "map_of g n") (auto simp: neighbors_def)
  then have "(n, ns) \<in> set g" by (auto dest: map_of_SomeD)
  with \<open>x \<in> set ns\<close> show "x \<in> all_nodes g"
    by (force simp: all_nodes_def)
qed

lemma dfs_visited_mono_dom:
  "dfs_dfs_each_dom (Inl (g, node, path, st)) \<Longrightarrow>
     set (fst st) \<subseteq> set (fst (snd (dfs g node path st)))"
  "dfs_dfs_each_dom (Inr (g, ns, path, st)) \<Longrightarrow>
     set (fst st) \<subseteq> set (fst (snd (dfs_each g ns path st)))"
proof (induct g node path st and g ns path st rule: dfs_dfs_each.pinduct)
  case (1 g node path visited recStack)
  then show ?case
    by (auto simp: dfs.psimps split: prod.splits option.splits)
next
  case (2 g path st)
  then show ?case by (simp add: dfs_each.psimps)
next
  case (3 g n ns path st)
  then show ?case
    by (fastforce simp: dfs_each.psimps split: prod.splits option.splits)
qed

text \<open>Each call that gets past the two membership tests marks a node that was not marked,
  and the marks are never taken back: the unmarked nodes of the graph are the measure.\<close>

termination dfs
proof (relation "inv_image (less_than <*lex*> less_than)
    (\<lambda>x. case x of
        Inl (g, node, path, st) \<Rightarrow> (card ((all_nodes g \<union> {node}) - set (fst st)), 0)
      | Inr (g, ns, path, st) \<Rightarrow>
          (card ((all_nodes g \<union> set ns) - set (fst st)), Suc (length ns)))", goal_cases)
  case 1
  then show ?case by auto
next
  case (2 g node path visited recStack)
  have fin: "finite (all_nodes g)" by (rule finite_all_nodes)
  have sub: "set (neighbors g node) \<subseteq> all_nodes g" by (rule neighbors_subset)
  have "(all_nodes g \<union> set (neighbors g node)) - set (node # visited)
        \<subset> (all_nodes g \<union> {node}) - set visited"
    using 2 sub by auto
  then have "card ((all_nodes g \<union> set (neighbors g node)) - set (node # visited))
        < card ((all_nodes g \<union> {node}) - set visited)"
    using fin by (intro psubset_card_mono) auto
  then show ?case by simp
next
  case (3 g n ns path st)
  have fin: "finite (all_nodes g)" by (rule finite_all_nodes)
  have "card ((all_nodes g \<union> {n}) - set (fst st))
        \<le> card ((all_nodes g \<union> set (n # ns)) - set (fst st))"
    using fin by (intro card_mono) auto
  then show ?case by auto
next
  case (4 g n ns path st x z)
  have fin: "finite (all_nodes g)" by (rule finite_all_nodes)
  from 4 have "snd (dfs g n path st) = z" by (metis snd_conv)
  with 4 dfs_visited_mono_dom(1)[of g n path st] have "set (fst st) \<subseteq> set (fst z)" by simp
  then have "card ((all_nodes g \<union> set ns) - set (fst z))
        \<le> card ((all_nodes g \<union> set (n # ns)) - set (fst st))"
    using fin by (intro card_mono) auto
  then show ?case by auto
qed

declare dfs.simps [simp del]

text \<open>The loop over \<open>graph.keys()\<close>: every key not yet visited is a root, and every cycle
  a root returns is kept.\<close>

fun detect_from :: "'a graph \<Rightarrow> 'a list \<Rightarrow> 'a dfs_state \<Rightarrow> 'a list list" where
  "detect_from g [] st = []"
| "detect_from g (node # nodes) st =
     (if node \<notin> set (fst st)
      then (case dfs g node [] st of
              (Some cycle, st') \<Rightarrow> cycle # detect_from g nodes st'
            | (None, st') \<Rightarrow> detect_from g nodes st')
      else detect_from g nodes st)"

definition detectCycles :: "'a graph \<Rightarrow> 'a list list" where
  "detectCycles g = detect_from g (map fst g) ([], [])"

definition isAcyclic :: "'a graph \<Rightarrow> bool" where
  "isAcyclic g = (length (detectCycles g) = 0)"

subsection \<open>topologicalSort\<close>

text \<open>\<open>inDegree\<close> is a \<open>Map\<close> from nodes to numbers. \<open>inDegree.get(n) || 0\<close> reads a
  missing entry, a zero and a \<open>NaN\<close> as 0; \<open>inDegree.get(n) - 1\<close> on a missing entry
  is \<open>NaN\<close>.\<close>

type_synonym 'a degrees = "('a \<times> int option) list"

definition degree_or_zero :: "'a degrees \<Rightarrow> 'a \<Rightarrow> int" where
  "degree_or_zero deg n = (case map_of deg n of Some (Some d) \<Rightarrow> d | _ \<Rightarrow> 0)"

definition degree_minus_one :: "'a degrees \<Rightarrow> 'a \<Rightarrow> int option" where
  "degree_minus_one deg n = (case map_of deg n of Some (Some d) \<Rightarrow> Some (d - 1) | _ \<Rightarrow> None)"

text \<open>The second loop: one more for each successor of each entry.\<close>

definition count_edges :: "'a degrees \<Rightarrow> 'a list \<Rightarrow> 'a degrees" where
  "count_edges deg ns = foldl (\<lambda>d n. map_set d n (Some (degree_or_zero d n + 1))) deg ns"

definition inDegrees :: "'a graph \<Rightarrow> 'a degrees" where
  "inDegrees g =
     foldl (\<lambda>d e. count_edges d (snd e)) (foldl (\<lambda>d node. map_set d node (Some 0)) [] (map fst g)) g"

text \<open>The \<open>for\<close> loop inside the \<open>while\<close>: each successor loses one, and joins the queue
  when it reaches zero.\<close>

fun release :: "'a list \<Rightarrow> 'a degrees \<Rightarrow> 'a list \<Rightarrow> 'a degrees \<times> 'a list" where
  "release [] deg queue = (deg, queue)"
| "release (n # ns) deg queue =
     (let d = degree_minus_one deg n
      in release ns (map_set deg n d) (if d = Some 0 then queue @ [n] else queue))"

definition positive_entries :: "'a degrees \<Rightarrow> nat" where
  "positive_entries deg = length (filter (\<lambda>e. case snd e of Some d \<Rightarrow> 0 < d | None \<Rightarrow> False) deg)"

lemma positive_entries_map_set:
  "positive_entries (map_set deg n (degree_minus_one deg n))
     = (if degree_minus_one deg n = Some 0 then positive_entries deg - 1 else positive_entries deg)
   \<and> (degree_minus_one deg n = Some 0 \<longrightarrow> 0 < positive_entries deg)"
proof (induction deg)
  case Nil
  then show ?case by (simp add: positive_entries_def degree_minus_one_def)
next
  case (Cons e deg)
  obtain k v where e: "e = (k, v)" by (cases e)
  show ?case
  proof (cases "k = n")
    case True
    then show ?thesis using e
      by (cases v) (auto simp: positive_entries_def degree_minus_one_def)
  next
    case False
    then have "degree_minus_one (e # deg) n = degree_minus_one deg n"
      using e by (simp add: degree_minus_one_def)
    then show ?thesis using Cons False e
      by (auto simp: positive_entries_def)
  qed
qed

lemma release_measure:
  "release ns deg queue = (deg', queue') \<Longrightarrow>
     length queue' + positive_entries deg' = length queue + positive_entries deg"
proof (induction ns arbitrary: deg queue)
  case Nil
  then show ?case by simp
next
  case (Cons n ns)
  let ?d = "degree_minus_one deg n"
  from Cons.prems have r: "release ns (map_set deg n ?d) (if ?d = Some 0 then queue @ [n] else queue)
      = (deg', queue')" by (simp add: Let_def)
  from Cons.IH[OF r] positive_entries_map_set[of deg n] show ?case
    by (auto split: if_splits)
qed

text \<open>The \<open>while\<close> loop: \<open>queue.shift()\<close>, \<open>result.push(node)\<close>, then the successors.\<close>

function kahn :: "'a graph \<Rightarrow> 'a list \<Rightarrow> 'a list \<Rightarrow> 'a degrees \<Rightarrow> 'a list" where
  "kahn g [] result deg = result"
| "kahn g (node # queue) result deg =
     (case release (neighbors g node) deg queue of
        (deg', queue') \<Rightarrow> kahn g queue' (result @ [node]) deg')"
  by pat_completeness auto

termination kahn
proof (relation "measure (\<lambda>(g, queue, result, deg). length queue + positive_entries deg)", goal_cases)
  case 1
  then show ?case by simp
next
  case (2 g node queue result deg deg' queue')
  then have "release (neighbors g node) deg queue = (deg', queue')" by simp
  from release_measure[OF this] show ?case by simp
qed

definition topologicalSort :: "'a graph \<Rightarrow> 'a list option" where
  "topologicalSort g =
     (let inDegree = inDegrees g;
          queue = map fst (filter (\<lambda>e. snd e = Some 0) inDegree);
          result = kahn g queue [] inDegree
      in if length result \<noteq> length g then None else Some result)"


section \<open>EnhancedValidationService\<close>

text \<open>
  A finding is the object the validators push. Its \<open>message\<close> and \<open>suggestedFix\<close> are
  template strings: fixed words for each kind of finding, with values filled in. The
  model keeps the values that are filled in, in the order in which the template names
  them; \<open>fid\<close> is the \<open>id\<close> string itself. A key the object literal does not have is
  \<open>None\<close>.
\<close>

record finding =
  fid :: string
  ftype :: string
  severity :: string
  entity :: string
  field :: "string option"
  recordId :: "jsval option"
  row :: "nat option"
  message :: "jsval list"
  suggestedFix :: "jsval list"
  affectedRecords :: "jsval list option"

subsection \<open>safeArrayConvert, safePhaseConvert\<close>

definition safeArrayConvert :: "jsval \<Rightarrow> string list" where
  "safeArrayConvert v =
     (case v of
        JArr items \<Rightarrow> filter (\<lambda>s. s \<noteq> []) (map (\<lambda>item. trim (js_toString item)) items)
      | JStr s \<Rightarrow>
          if trim s \<noteq> [] then filter (\<lambda>s. s \<noteq> []) (map trim (split_on CHR '','' s)) else []
      | _ \<Rightarrow> [])"

text \<open>The loop over a range, \<open>for (let i = start; i <= end; i++)\<close>, is the list
  \<open>[start..end]\<close>: \<open>parseInt\<close> is modelled on integers of any size, and between two
  integers the loop ends. (A text of more than 308 digits, which \<open>parseInt\<close> reads as
  \<open>Infinity\<close>, is outside this model; the loop that does not end is modelled where
  \<open>Number\<close> reads the ends, in \<open>parseRange\<close>.)\<close>

definition safePhaseConvert :: "jsval \<Rightarrow> int list" where
  "safePhaseConvert v =
     (case v of
        JArr ps \<Rightarrow> List.map_filter parseInt ps
      | JStr s \<Rightarrow>
          if trim s \<noteq> [] then
            (if CHR ''-'' \<in> set s then
               (case map (\<lambda>n. parseInt_string (trim n)) (split_on CHR ''-'' s) of
                  Some start # Some end # _ \<Rightarrow> [start..end]
                | _ \<Rightarrow> [])
             else List.map_filter (\<lambda>n. parseInt_string (trim n))
                    (split_on CHR '','' (filter (\<lambda>c. c \<noteq> CHR ''['' \<and> c \<noteq> CHR '']'') s)))
          else []
      | _ \<Rightarrow> [])"

subsection \<open>Structural validations\<close>

definition requiredColumns :: "string \<Rightarrow> string list" where
  "requiredColumns entityType =
     (if entityType = ''clients'' then [''ClientID'', ''ClientName'', ''PriorityLevel'']
      else if entityType = ''workers'' then [''WorkerID'', ''WorkerName'', ''Skills'', ''AvailableSlots'']
      else if entityType = ''tasks'' then [''TaskID'', ''TaskName'', ''Duration'', ''RequiredSkills'']
      else [])"

definition validateRequiredColumns :: "runtime \<Rightarrow> jsval \<Rightarrow> string \<Rightarrow> js_error + finding list" where
  "validateRequiredColumns rt data entityType =
     bindE (get_prop data ''length'') (\<lambda>len.
       if num_gt (to_number rt len) (Some 0) then
         bindE (get_first data) (\<lambda>firstRecord.
           forEachE (\<lambda>f.
             bindE (has_prop f firstRecord) (\<lambda>present.
               Inr (if \<not> present then
                 [\<lparr> fid = ''missing_column_'' @ entityType @ ''_'' @ f,
                    ftype = ''missing_required_column'', severity = ''error'',
                    entity = entityType, field = Some f, recordId = None, row = None,
                    message = [JStr f, JStr entityType],
                    suggestedFix = [JStr f, JStr entityType], affectedRecords = None \<rparr>]
               else [])))
             (requiredColumns entityType))
       else Inr [])"

text \<open>The first loop of \<open>validateDuplicateIds\<close>: the ids seen and the ids seen again.\<close>

fun scanIds :: "string \<Rightarrow> jsval list \<Rightarrow> jsval list \<times> jsval list \<Rightarrow> js_error + jsval list \<times> jsval list" where
  "scanIds idField [] (seenIds, duplicates) = Inr (seenIds, duplicates)"
| "scanIds idField (record # records) (seenIds, duplicates) =
     bindE (get_prop record idField) (\<lambda>id.
       if truthy id then
         (if set_has seenIds id then scanIds idField records (seenIds, set_add duplicates id)
          else scanIds idField records (seenIds @ [id], duplicates))
       else scanIds idField records (seenIds, duplicates))"

definition validateDuplicateIds :: "jsval \<Rightarrow> string \<Rightarrow> string \<Rightarrow> js_error + finding list" where
  "validateDuplicateIds data entityType idField =
     bindE (elements data) (\<lambda>records.
       bindE (scanIds idField records ([], [])) (\<lambda>(seenIds, duplicates).
         Inr (map (\<lambda>duplicateId.
           \<lparr> fid = ''duplicate_id_'' @ entityType @ ''_'' @ js_toString duplicateId,
              ftype = ''duplicate_id'', severity = ''error'', entity = entityType,
              field = Some idField, recordId = Some duplicateId, row = None,
              message = [JStr idField, duplicateId, JStr entityType],
              suggestedFix = [JStr idField], affectedRecords = None \<rparr>) duplicates)))"

text \<open>The \<open>try\<close> of \<open>validateDataTypes\<close> on \<open>AvailableSlots\<close>: an array, or a text that
  \<open>JSON.parse\<close> turns into an array.\<close>

definition slotsAreArray :: "runtime \<Rightarrow> jsval \<Rightarrow> bool" where
  "slotsAreArray rt v =
     (if is_array v then True
      else (case json_parse rt (js_toString v) of None \<Rightarrow> False | Some slots \<Rightarrow> is_array slots))"

definition validateDataTypes :: "runtime \<Rightarrow> jsval \<Rightarrow> jsval \<Rightarrow> jsval \<Rightarrow> js_error + finding list" where
  "validateDataTypes rt clientsData workersData tasksData =
     bindE (elements clientsData) (\<lambda>clients.
     bindE (forEachE (\<lambda>(index, client).
         bindE (get_prop client ''PriorityLevel'') (\<lambda>priorityLevel.
           if truthy priorityLevel \<and> parseInt priorityLevel = None then
             bindE (get_prop client ''ClientID'') (\<lambda>clientID.
               Inr [\<lparr> fid = ''malformed_priority_'' @ js_toString (js_or clientID (JNum (int index))),
                       ftype = ''malformed_data'', severity = ''error'', entity = ''clients'',
                       field = Some ''PriorityLevel'', recordId = Some clientID,
                       row = Some (index + 1), message = [priorityLevel],
                       suggestedFix = [], affectedRecords = None \<rparr>])
           else Inr [])) (indexed clients)) (\<lambda>e1.
     bindE (elements workersData) (\<lambda>workers.
     bindE (forEachE (\<lambda>(index, worker).
         bindE (get_prop worker ''AvailableSlots'') (\<lambda>availableSlots.
           if truthy availableSlots \<and> \<not> slotsAreArray rt availableSlots then
             bindE (get_prop worker ''WorkerID'') (\<lambda>workerID.
               Inr [\<lparr> fid = ''malformed_slots_'' @ js_toString (js_or workerID (JNum (int index))),
                       ftype = ''malformed_data'', severity = ''error'', entity = ''workers'',
                       field = Some ''AvailableSlots'', recordId = Some workerID,
                       row = Some (index + 1), message = [availableSlots],
                       suggestedFix = [], affectedRecords = None \<rparr>])
           else Inr [])) (indexed workers)) (\<lambda>e2.
     bindE (elements tasksData) (\<lambda>tasks.
     bindE (forEachE (\<lambda>(index, task).
         bindE (get_prop task ''Duration'') (\<lambda>duration.
           if truthy duration \<and> (parseInt duration = None \<or> num_lt (parseInt duration) (Some 1)) then
             bindE (get_prop task ''TaskID'') (\<lambda>taskID.
               Inr [\<lparr> fid = ''malformed_duration_'' @ js_toString (js_or taskID (JNum (int index))),
                       ftype = ''malformed_data'', severity = ''error'', entity = ''tasks'',
                       field = Some ''Duration'', recordId = Some taskID,
                       row = Some (index + 1), message = [duration],
                       suggestedFix = [], affectedRecords = None \<rparr>])
           else Inr [])) (indexed tasks)) (\<lambda>e3.
     Inr (e1 @ e2 @ e3)))))))"

definition validateRanges :: "jsval \<Rightarrow> jsval \<Rightarrow> jsval \<Rightarrow> js_error + finding list" where
  "validateRanges clientsData workersData tasksData =
     bindE (elements clientsData) (\<lambda>clients.
       forEachE (\<lambda>(index, client).
         bindE (get_prop client ''PriorityLevel'') (\<lambda>priorityLevel.
           if truthy priorityLevel then
             (case parseInt priorityLevel of
                None \<Rightarrow> Inr []
              | Some priority \<Rightarrow>
                  if priority < 1 \<or> priority > 5 then
                    bindE (get_prop client ''ClientID'') (\<lambda>clientID.
                      Inr [\<lparr> fid = ''priority_out_of_range_'' @ js_toString (js_or clientID (JNum (int index))),
                              ftype = ''out_of_range'', severity = ''error'', entity = ''clients'',
                              field = Some ''PriorityLevel'', recordId = Some clientID,
                              row = Some (index + 1), message = [JNum priority],
                              suggestedFix = [], affectedRecords = None \<rparr>])
                  else Inr [])
           else Inr [])) (indexed clients))"

definition validateStructural :: "runtime \<Rightarrow> jsval \<Rightarrow> jsval \<Rightarrow> jsval \<Rightarrow> js_error + finding list" where
  "validateStructural rt clientsData workersData tasksData =
     bindE (validateRequiredColumns rt clientsData ''clients'') (\<lambda>c1.
     bindE (validateRequiredColumns rt workersData ''workers'') (\<lambda>c2.
     bindE (validateRequiredColumns rt tasksData ''tasks'') (\<lambda>c3.
     bindE (validateDuplicateIds clientsData ''clients'' ''ClientID'') (\<lambda>d1.
     bindE (validateDuplicateIds workersData ''workers'' ''WorkerID'') (\<lambda>d2.
     bindE (validateDuplicateIds tasksData ''tasks'' ''TaskID'') (\<lambda>d3.
     bindE (validateDataTypes rt clientsData workersData tasksData) (\<lambda>t.
     bindE (validateRanges clientsData workersData tasksData) (\<lambda>r.
     Inr (c1 @ c2 @ c3 @ d1 @ d2 @ d3 @ t @ r)))))))))"


subsection \<open>Referential validations\<close>

definition validateTaskReferences :: "jsval \<Rightarrow> jsval \<Rightarrow> js_error + finding list" where
  "validateTaskReferences clientsData tasksData =
     bindE (elements tasksData) (\<lambda>tasks.
     bindE (mapE (\<lambda>task. get_prop task ''TaskID'') tasks) (\<lambda>taskIds.
     let validTaskIds = filter truthy taskIds in
     bindE (elements clientsData) (\<lambda>clients.
       forEachE (\<lambda>(index, client).
         bindE (get_prop client ''RequestedTaskIDs'') (\<lambda>requested.
           if truthy requested then
             forEachE (\<lambda>taskId.
               if taskId \<noteq> [] \<and> \<not> set_has validTaskIds (JStr taskId) then
                 bindE (get_prop client ''ClientID'') (\<lambda>clientID.
                   Inr [\<lparr> fid = ''unknown_task_reference_'' @ js_toString clientID @ ''_'' @ taskId,
                           ftype = ''unknown_reference'', severity = ''error'', entity = ''clients'',
                           field = Some ''RequestedTaskIDs'', recordId = Some clientID,
                           row = Some (index + 1), message = [clientID, JStr taskId],
                           suggestedFix = [JStr taskId, JStr taskId], affectedRecords = None \<rparr>])
               else Inr []) (safeArrayConvert requested)
           else Inr [])) (indexed clients))))"

text \<open>The first loop of \<open>validateSkillCoverage\<close>: the skills of all workers, in lower
  case.\<close>

definition collectWorkerSkills :: "jsval list \<Rightarrow> js_error + string list" where
  "collectWorkerSkills workers =
     bindE (mapE (\<lambda>worker.
         bindE (get_prop worker ''Skills'') (\<lambda>skills.
           Inr (if truthy skills then map toLowerCase (safeArrayConvert skills) else []))) workers)
       (\<lambda>xs. Inr (concat xs))"

definition validateSkillCoverage :: "jsval \<Rightarrow> jsval \<Rightarrow> js_error + finding list" where
  "validateSkillCoverage tasksData workersData =
     bindE (elements workersData) (\<lambda>workers.
     bindE (collectWorkerSkills workers) (\<lambda>workerSkills.
     bindE (elements tasksData) (\<lambda>tasks.
       forEachE (\<lambda>(index, task).
         bindE (get_prop task ''RequiredSkills'') (\<lambda>required.
           if truthy required then
             forEachE (\<lambda>skill.
               let cleanSkill = toLowerCase (trim skill) in
               if cleanSkill \<noteq> [] \<and> cleanSkill \<notin> set workerSkills then
                 bindE (get_prop task ''TaskID'') (\<lambda>taskID.
                   Inr [\<lparr> fid = ''skill_gap_'' @ js_toString taskID @ ''_'' @ trim skill,
                           ftype = ''skill_coverage_gap'', severity = ''error'', entity = ''tasks'',
                           field = Some ''RequiredSkills'', recordId = Some taskID,
                           row = Some (index + 1), message = [JStr (trim skill), taskID],
                           suggestedFix = [JStr (trim skill)], affectedRecords = None \<rparr>])
               else Inr []) (safeArrayConvert required)
           else Inr [])) (indexed tasks))))"

definition validateReferential :: "jsval \<Rightarrow> jsval \<Rightarrow> jsval \<Rightarrow> js_error + finding list" where
  "validateReferential clientsData workersData tasksData =
     bindE (validateTaskReferences clientsData tasksData) (\<lambda>r.
     bindE (validateSkillCoverage tasksData workersData) (\<lambda>s.
     Inr (r @ s)))"

subsection \<open>Business validations\<close>

text \<open>The body of the \<open>try\<close> for one worker: what is pushed, or nothing when the
  \<open>catch\<close> swallows an exception (\<open>JSON.parse\<close> throws, or it returns \<open>null\<close> and
  \<open>.length\<close> throws).\<close>

definition workerOverloadOf :: "runtime \<Rightarrow> nat \<Rightarrow> jsval \<Rightarrow> jsval \<Rightarrow> jsval \<Rightarrow> finding list" where
  "workerOverloadOf rt index workerID slots maxLoadPerPhase =
     (case (if is_array slots then Some slots else json_parse rt (js_toString slots)) of
        None \<Rightarrow> []
      | Some availableSlots \<Rightarrow>
          (case parseInt maxLoadPerPhase of
             None \<Rightarrow> []
           | Some maxLoad \<Rightarrow>
               (case get_prop availableSlots ''length'' of
                  Inl e \<Rightarrow> []
                | Inr len \<Rightarrow>
                    if num_gt (to_number rt len) (Some maxLoad) then
                      [\<lparr> fid = ''worker_overload_'' @ js_toString (js_or workerID (JNum (int index))),
                         ftype = ''worker_overload'', severity = ''warning'', entity = ''workers'',
                         field = Some ''MaxLoadPerPhase'', recordId = Some workerID,
                         row = Some (index + 1), message = [workerID, len, JNum maxLoad],
                         suggestedFix = [len], affectedRecords = None \<rparr>]
                    else [])))"

definition validateWorkerOverload :: "runtime \<Rightarrow> jsval \<Rightarrow> js_error + finding list" where
  "validateWorkerOverload rt workersData =
     bindE (elements workersData) (\<lambda>workers.
       forEachE (\<lambda>(index, worker).
         bindE (get_prop worker ''AvailableSlots'') (\<lambda>slots.
           if truthy slots then
             bindE (get_prop worker ''MaxLoadPerPhase'') (\<lambda>maxLoadPerPhase.
               if truthy maxLoadPerPhase then
                 bindE (get_prop worker ''WorkerID'') (\<lambda>workerID.
                   Inr (workerOverloadOf rt index workerID slots maxLoadPerPhase))
               else Inr [])
           else Inr [])) (indexed workers))"

text \<open>\<open>capacity\<close> and \<open>demand\<close> are plain objects used as tables: an entry per property,
  in the order of creation. A value is written under the key \<open>String(phase)\<close>. (Only
  the entries written count: a key that every object inherits, such as \<open>constructor\<close>, is
  not modelled.)\<close>

definition addCapacity :: "(string \<times> int) list \<Rightarrow> jsval \<Rightarrow> (string \<times> int) list" where
  "addCapacity capacity phase =
     (let key = js_toString phase
      in map_set capacity key ((case map_of capacity key of None \<Rightarrow> 0 | Some c \<Rightarrow> c) + 1))"

text \<open>The slots of one worker as the inner \<open>try\<close> gets them; \<open>None\<close> when the \<open>catch\<close>
  skips the worker.\<close>

definition slotsOf :: "runtime \<Rightarrow> jsval \<Rightarrow> jsval list option" where
  "slotsOf rt availableSlots =
     (case (if is_array availableSlots then Some availableSlots
            else json_parse rt (js_toString availableSlots)) of
        Some (JArr slots) \<Rightarrow> Some slots
      | _ \<Rightarrow> None)"

fun capacityLoop :: "runtime \<Rightarrow> jsval list \<Rightarrow> (string \<times> int) list \<Rightarrow> js_error + (string \<times> int) list" where
  "capacityLoop rt [] capacity = Inr capacity"
| "capacityLoop rt (worker # workers) capacity =
     bindE (get_prop worker ''AvailableSlots'') (\<lambda>availableSlots.
       if truthy availableSlots then
         (case slotsOf rt availableSlots of
            None \<Rightarrow> capacityLoop rt workers capacity
          | Some slots \<Rightarrow> capacityLoop rt workers (foldl addCapacity capacity slots))
       else capacityLoop rt workers capacity)"

definition calculatePhaseCapacity :: "runtime \<Rightarrow> jsval \<Rightarrow> js_error + (string \<times> int) list" where
  "calculatePhaseCapacity rt workersData =
     bindE (elements workersData) (\<lambda>workers. capacityLoop rt workers [])"

text \<open>\<open>demand[phase] = (demand[phase] || 0) + duration\<close>: a missing entry, a zero and a
  \<open>NaN\<close> all count as 0 before the addition.\<close>

definition addDemand :: "int option \<Rightarrow> (string \<times> int option) list \<Rightarrow> int \<Rightarrow> (string \<times> int option) list" where
  "addDemand duration demand phase =
     (let key = dec_int phase
      in map_set demand key
           (num_add (Some (case map_of demand key of Some (Some d) \<Rightarrow> d | _ \<Rightarrow> 0)) duration))"

fun demandLoop :: "jsval list \<Rightarrow> (string \<times> int option) list \<Rightarrow> js_error + (string \<times> int option) list" where
  "demandLoop [] demand = Inr demand"
| "demandLoop (task # tasks) demand =
     bindE (get_prop task ''Duration'') (\<lambda>duration.
       if truthy duration then
         bindE (get_prop task ''PreferredPhases'') (\<lambda>preferredPhases.
           if truthy preferredPhases then
             demandLoop tasks
               (foldl (addDemand (parseInt duration)) demand (safePhaseConvert preferredPhases))
           else demandLoop tasks demand)
       else demandLoop tasks demand)"

definition calculatePhaseDemand :: "jsval \<Rightarrow> js_error + (string \<times> int option) list" where
  "calculatePhaseDemand tasksData =
     bindE (elements tasksData) (\<lambda>tasks. demandLoop tasks [])"

definition taskUsesPhase :: "jsval \<Rightarrow> int option \<Rightarrow> js_error + bool" where
  "taskUsesPhase task phase =
     bindE (get_prop task ''PreferredPhases'') (\<lambda>preferredPhases.
       if \<not> truthy preferredPhases then Inr False
       else Inr (case phase of None \<Rightarrow> False | Some p \<Rightarrow> p \<in> set (safePhaseConvert preferredPhases)))"

text \<open>\<open>Object.entries\<close> lists the properties that are array indices first, in ascending
  order, then the others in the order of creation. An array index is the canonical
  decimal text of a number below \<open>2^32 - 1\<close>.\<close>

definition array_index :: "string \<Rightarrow> nat option" where
  "array_index s =
     (case digits_prefix 10 None s of
        None \<Rightarrow> None
      | Some n \<Rightarrow> if dec_nat n = s \<and> int n < 4294967295 then Some n else None)"

definition object_entries :: "(string \<times> 'v) list \<Rightarrow> (string \<times> 'v) list" where
  "object_entries obj =
     sort_key (\<lambda>e. case array_index (fst e) of Some n \<Rightarrow> n | None \<Rightarrow> 0)
       (filter (\<lambda>e. array_index (fst e) \<noteq> None) obj)
     @ filter (\<lambda>e. array_index (fst e) = None) obj"

definition calculation_error :: "string \<Rightarrow> string \<Rightarrow> finding" where
  "calculation_error ident ent =
     \<lparr> fid = ident, ftype = ''calculation_error'', severity = ''warning'', entity = ent,
        field = None, recordId = None, row = None, message = [], suggestedFix = [],
        affectedRecords = None \<rparr>"

text \<open>The \<open>for\<close> loop of \<open>validatePhaseSlotSaturation\<close>. It runs inside the \<open>try\<close>:
  the findings pushed so far, and the exception that ended the loop, if any. A demand
  that is \<open>NaN\<close> exceeds no capacity.\<close>

fun saturationLoop :: "jsval list \<Rightarrow> (string \<times> int) list \<Rightarrow> (string \<times> int option) list
    \<Rightarrow> finding list \<times> js_error option" where
  "saturationLoop tasks phaseCapacity [] = ([], None)"
| "saturationLoop tasks phaseCapacity ((phase, None) # entries) =
     saturationLoop tasks phaseCapacity entries"
| "saturationLoop tasks phaseCapacity ((phase, Some demand) # entries) =
     (let capacity = (case map_of phaseCapacity phase of None \<Rightarrow> 0 | Some c \<Rightarrow> c)
      in if demand > capacity then
           (case mapE (\<lambda>t. bindE (taskUsesPhase t (parseInt_string phase)) (\<lambda>uses.
                              bindE (get_prop t ''TaskID'') (\<lambda>taskID. Inr (uses, taskID)))) tasks of
              Inl e \<Rightarrow> ([], Some e)
            | Inr marked \<Rightarrow>
                (case saturationLoop tasks phaseCapacity entries of
                   (found, thrown) \<Rightarrow>
                     (\<lparr> fid = ''phase_saturation_'' @ phase, ftype = ''phase_slot_saturation'',
                        severity = ''error'', entity = ''operational'', field = None,
                        recordId = None, row = None,
                        message = [JStr phase, JNum demand, JNum capacity],
                        suggestedFix = [JNum (demand - capacity), JStr phase],
                        affectedRecords = Some (map snd (filter fst marked)) \<rparr> # found, thrown)))
         else saturationLoop tasks phaseCapacity entries)"

definition validatePhaseSlotSaturation :: "runtime \<Rightarrow> jsval \<Rightarrow> jsval \<Rightarrow> finding list" where
  "validatePhaseSlotSaturation rt tasksData workersData =
     (case bindE (calculatePhaseCapacity rt workersData) (\<lambda>phaseCapacity.
           bindE (calculatePhaseDemand tasksData) (\<lambda>phaseDemand.
           bindE (elements tasksData) (\<lambda>tasks. Inr (phaseCapacity, phaseDemand, tasks)))) of
        Inl e \<Rightarrow> [calculation_error ''phase_calculation_error'' ''operational'']
      | Inr (phaseCapacity, phaseDemand, tasks) \<Rightarrow>
          (case saturationLoop tasks phaseCapacity (object_entries phaseDemand) of
             (found, None) \<Rightarrow> found
           | (found, Some e) \<Rightarrow> found @ [calculation_error ''phase_calculation_error'' ''operational'']))"

definition validateBusinessLogic :: "runtime \<Rightarrow> jsval \<Rightarrow> jsval \<Rightarrow> jsval \<Rightarrow> js_error + finding list" where
  "validateBusinessLogic rt clientsData workersData tasksData =
     bindE (validateWorkerOverload rt workersData) (\<lambda>w.
     Inr (w @ validatePhaseSlotSaturation rt tasksData workersData))"


subsection \<open>Operational validations\<close>

text \<open>The \<open>filter\<close> callback of \<open>validateMaxConcurrency\<close>.\<close>

definition isQualified :: "string list \<Rightarrow> jsval \<Rightarrow> js_error + bool" where
  "isQualified requiredSkills worker =
     bindE (get_prop worker ''Skills'') (\<lambda>skills.
       if \<not> truthy skills then Inr False
       else Inr (list_all (\<lambda>skill. skill \<in> set (map toLowerCase (safeArrayConvert skills)))
                   requiredSkills))"

text \<open>The body of the \<open>try\<close> for one task; an exception inside it is swallowed.\<close>

definition maxConcurrencyOf :: "jsval \<Rightarrow> nat \<Rightarrow> jsval \<Rightarrow> jsval \<Rightarrow> jsval \<Rightarrow> finding list" where
  "maxConcurrencyOf workersData index taskID maxConcurrentField requiredSkillsField =
     (let requiredSkills = map toLowerCase (safeArrayConvert requiredSkillsField) in
      case bindE (elements workersData) (mapE (isQualified requiredSkills)) of
        Inl e \<Rightarrow> []
      | Inr qualified \<Rightarrow>
          (case parseInt maxConcurrentField of
             None \<Rightarrow> []
           | Some maxConcurrent \<Rightarrow>
               let n = int (length (filter id qualified)) in
               if n < maxConcurrent then
                 [\<lparr> fid = ''max_concurrency_infeasible_'' @ js_toString taskID,
                    ftype = ''max_concurrency_infeasible'', severity = ''warning'',
                    entity = ''tasks'', field = Some ''MaxConcurrent'', recordId = Some taskID,
                    row = Some (index + 1), message = [taskID, JNum maxConcurrent, JNum n],
                    suggestedFix = [JNum n], affectedRecords = None \<rparr>]
               else []))"

definition validateMaxConcurrency :: "jsval \<Rightarrow> jsval \<Rightarrow> js_error + finding list" where
  "validateMaxConcurrency tasksData workersData =
     bindE (elements tasksData) (\<lambda>tasks.
       forEachE (\<lambda>(index, task).
         bindE (get_prop task ''MaxConcurrent'') (\<lambda>maxConcurrent.
           if truthy maxConcurrent then
             bindE (get_prop task ''RequiredSkills'') (\<lambda>requiredSkills.
               if truthy requiredSkills then
                 bindE (get_prop task ''TaskID'') (\<lambda>taskID.
                   Inr (maxConcurrencyOf workersData index taskID maxConcurrent requiredSkills))
               else Inr [])
           else Inr [])) (indexed tasks))"

text \<open>The pairs \<open>(tasks[i], tasks[j])\<close> with \<open>i < j\<close>, in the order of the two nested
  loops.\<close>

fun pairs_of :: "'a list \<Rightarrow> ('a \<times> 'a) list" where
  "pairs_of [] = []"
| "pairs_of (x # xs) = map (Pair x) xs @ pairs_of xs"

text \<open>\<open>graph.has(k)\<close> on a \<open>Map\<close> keyed by task ids.\<close>

definition graph_has :: "jsval graph \<Rightarrow> jsval \<Rightarrow> bool" where
  "graph_has g k = (is_prim k \<and> map_has g k)"

definition linkTasks :: "jsval graph \<Rightarrow> jsval \<times> jsval \<Rightarrow> jsval graph" where
  "linkTasks g p =
     (case p of (taskA, taskB) \<Rightarrow>
        if graph_has g taskA \<and> graph_has g taskB then
          (let g1 = map_set g taskA (add_node (neighbors g taskA) taskB)
           in map_set g1 taskB (add_node (neighbors g1 taskB) taskA))
        else g)"

definition addCoRunRule :: "jsval graph \<Rightarrow> jsval \<Rightarrow> jsval graph" where
  "addCoRunRule g rule =
     (case get_prop rule ''tasks'' of
        Inr (JArr ts) \<Rightarrow> foldl linkTasks g (pairs_of ts)
      | _ \<Rightarrow> g)"

text \<open>The loop over \<open>graph.keys()\<close> of \<open>detectCircularCoRuns\<close>, which stops at the first
  cycle.\<close>

fun firstCycle :: "'a graph \<Rightarrow> 'a list \<Rightarrow> 'a dfs_state \<Rightarrow> 'a list option" where
  "firstCycle g [] st = None"
| "firstCycle g (node # nodes) st =
     (if node \<notin> set (fst st)
      then (case dfs g node [] st of
              (Some cycle, st') \<Rightarrow> Some cycle
            | (None, st') \<Rightarrow> firstCycle g nodes st')
      else firstCycle g nodes st)"

text \<open>The co-run rules among the rules, and the graph built from the tasks and them.\<close>

definition coRunRulesOf :: "jsval \<Rightarrow> js_error + jsval list" where
  "coRunRulesOf rules =
     bindE (elements rules) (\<lambda>rs.
     bindE (mapE (\<lambda>rule. bindE (get_prop rule ''type'') (\<lambda>t. Inr (t = JStr ''coRun'', rule))) rs)
       (\<lambda>marked. Inr (map snd (filter fst marked))))"

definition coRunGraph :: "jsval \<Rightarrow> jsval list \<Rightarrow> js_error + jsval graph" where
  "coRunGraph tasksData coRunRules =
     bindE (elements tasksData) (\<lambda>tasks.
     bindE (mapE (\<lambda>task. get_prop task ''TaskID'') tasks) (\<lambda>taskIds.
     Inr (foldl addCoRunRule (foldl (\<lambda>g k. map_set g k []) [] taskIds) coRunRules)))"

text \<open>\<open>xs[i]\<close> is \<open>undefined\<close> outside the array.\<close>

definition js_nth :: "jsval list \<Rightarrow> int \<Rightarrow> jsval" where
  "js_nth xs i = (if 0 \<le> i \<and> i < int (length xs) then xs ! nat i else JUndef)"

text \<open>The separator of the message, as the source file holds it: between two spaces the
  characters U+00E2, U+2020 and U+2019 (an arrow read in the wrong encoding), in UTF-8.\<close>

definition arrow :: string where
  "arrow = [CHR 0x20, CHR 0xC3, CHR 0xA2, CHR 0xE2, CHR 0x80, CHR 0xA0, CHR 0xE2, CHR 0x80, CHR 0x99,
            CHR 0x20]"

definition circular_corun :: "jsval list \<Rightarrow> finding" where
  "circular_corun cycle =
     \<lparr> fid = ''circular_corun_'' @ js_join ''_'' cycle, ftype = ''circular_corun'',
        severity = ''error'', entity = ''rules'', field = None, recordId = None, row = None,
        message = [JStr (js_join arrow cycle)],
        suggestedFix = [js_nth cycle 0, js_nth cycle (int (length cycle) - 2)],
        affectedRecords = Some cycle \<rparr>"

definition detectCircularCoRuns :: "jsval \<Rightarrow> jsval \<Rightarrow> finding list" where
  "detectCircularCoRuns tasksData rules =
     (case bindE (coRunRulesOf rules) (\<lambda>coRunRules.
             if length coRunRules = 0 then Inr []
             else bindE (coRunGraph tasksData coRunRules) (\<lambda>graph.
               Inr (case firstCycle graph (map fst graph) ([], []) of
                      None \<Rightarrow> []
                    | Some cycle \<Rightarrow> [circular_corun cycle]))) of
        Inl e \<Rightarrow> [calculation_error ''cycle_detection_error'' ''rules'']
      | Inr found \<Rightarrow> found)"

definition validateOperational :: "runtime \<Rightarrow> jsval \<Rightarrow> jsval \<Rightarrow> jsval \<Rightarrow> jsval \<Rightarrow> js_error + finding list" where
  "validateOperational rt clientsData workersData tasksData rules =
     bindE (validateMaxConcurrency tasksData workersData) (\<lambda>m.
       if truthy rules then
         bindE (get_prop rules ''length'') (\<lambda>len.
           Inr (if num_gt (to_number rt len) (Some 0)
                then m @ detectCircularCoRuns tasksData rules else m))
       else Inr m)"

subsection \<open>The orchestrator\<close>

record summary =
  totalErrors :: nat
  totalWarnings :: nat
  validationTypes :: "string list"
  timestamp :: string
  breakdown :: "(string \<times> nat) list option"

record validation_result =
  isValid :: bool
  errors :: "finding list"
  warnings :: "finding list"
  summary :: summary

text \<open>\<open>results\<close> is the object with the four lists; \<open>new Date().toISOString()\<close> reads the
  clock, which is an argument here.\<close>

definition aggregateResults :: "string \<Rightarrow> finding list \<Rightarrow> finding list \<Rightarrow> finding list \<Rightarrow> finding list
    \<Rightarrow> validation_result" where
  "aggregateResults now structural referential business operational =
     (let everything = structural @ referential @ business @ operational;
          allErrors = filter (\<lambda>r. severity r = ''error'') everything;
          allWarnings = filter (\<lambda>r. severity r = ''warning'') everything
      in \<lparr> isValid = (length allErrors = 0), errors = allErrors, warnings = allWarnings,
            summary = \<lparr> totalErrors = length allErrors, totalWarnings = length allWarnings,
              validationTypes = [''structural'', ''referential'', ''business'', ''operational''],
              timestamp = now,
              breakdown = Some [(''structural'', length structural),
                                (''referential'', length referential),
                                (''business'', length business),
                                (''operational'', length operational)] \<rparr> \<rparr>)"

definition systemErrorResult :: "string \<Rightarrow> validation_result" where
  "systemErrorResult now =
     \<lparr> isValid = False,
        errors = [\<lparr> fid = ''validation_system_error'', ftype = ''system'', severity = ''error'',
                    entity = ''system'', field = None, recordId = None, row = None,
                    message = [], suggestedFix = [], affectedRecords = None \<rparr>],
        warnings = [],
        summary = \<lparr> totalErrors = 1, totalWarnings = 0, validationTypes = [],
                     timestamp = now, breakdown = None \<rparr> \<rparr>"

text \<open>The four stages inside the \<open>try\<close>.\<close>

definition runStages :: "runtime \<Rightarrow> jsval \<Rightarrow> jsval \<Rightarrow> jsval \<Rightarrow> jsval
    \<Rightarrow> js_error + finding list \<times> finding list \<times> finding list \<times> finding list" where
  "runStages rt clientsData workersData tasksData rules =
     bindE (validateStructural rt clientsData workersData tasksData) (\<lambda>structural.
     bindE (validateReferential clientsData workersData tasksData) (\<lambda>referential.
     bindE (validateBusinessLogic rt clientsData workersData tasksData) (\<lambda>business.
     bindE (validateOperational rt clientsData workersData tasksData rules) (\<lambda>operational.
     Inr (structural, referential, business, operational)))))"

text \<open>\<open>validateAllData\<close>: the default \<open>rules = []\<close> stands in for \<open>undefined\<close>, and the
  \<open>catch\<close> turns any exception of the four stages into the fixed result.\<close>

definition validateAllData :: "runtime \<Rightarrow> string \<Rightarrow> jsval \<Rightarrow> jsval \<Rightarrow> jsval \<Rightarrow> jsval \<Rightarrow> validation_result" where
  "validateAllData rt now clientsData workersData tasksData rulesArg =
     (let rules = (if rulesArg = JUndef then JArr [] else rulesArg) in
      case runStages rt clientsData workersData tasksData rules of
        Inl e \<Rightarrow> systemErrorResult now
      | Inr (structural, referential, business, operational) \<Rightarrow>
          aggregateResults now structural referential business operational)"


section \<open>validation.service\<close>

text \<open>
  The per-entity validators return objects \<open>{row, field, message, type, severity}\<close>. As
  for a finding, \<open>vmessage\<close> holds the values that the message template is filled with.
\<close>

record verror =
  vrow :: nat
  vfield :: string
  vmessage :: "jsval list"
  vtype :: string
  vseverity :: string

definition severityMap :: "string \<Rightarrow> string" where
  "severityMap t =
     (if t \<in> set [''MissingField'', ''UnknownReference'', ''LogicalConflict'', ''DuplicateID'',
                   ''CircularReference'', ''SkillGap''] then ''high''
      else ''medium'')"

definition verr :: "nat \<Rightarrow> string \<Rightarrow> jsval list \<Rightarrow> string \<Rightarrow> verror" where
  "verr r f m t = \<lparr> vrow = r, vfield = f, vmessage = m, vtype = t, vseverity = severityMap t \<rparr>"

definition requiredFields :: "string \<Rightarrow> string list" where
  "requiredFields entityType =
     (if entityType = ''clients'' then [''ClientID'', ''PriorityLevel'']
      else if entityType = ''workers'' then [''WorkerID'', ''Skills'', ''AvailableSlots'', ''MaxLoadPerPhase'']
      else if entityType = ''tasks'' then [''TaskID'', ''Duration'', ''RequiredSkills'']
      else [])"

subsection \<open>Utility functions\<close>

definition validateRequiredFields :: "jsval \<Rightarrow> string list \<Rightarrow> nat \<Rightarrow> js_error + verror list" where
  "validateRequiredFields record required rowIndex =
     forEachE (\<lambda>f.
       bindE (get_prop record f) (\<lambda>v.
         Inr (if \<not> truthy v \<or> v = JStr [] then [verr rowIndex f [JStr f] ''MissingField''] else [])))
       required"

text \<open>\<open>typeof value === 'number'\<close>\<close>

fun is_number :: "jsval \<Rightarrow> bool" where
  "is_number (JNum n) = True"
| "is_number v = False"

definition arrayifyCommaString :: "jsval \<Rightarrow> string list" where
  "arrayifyCommaString v =
     (case v of
        JStr s \<Rightarrow> if s = [] then [] else filter (\<lambda>item. item \<noteq> []) (map trim (split_on CHR '','' s))
      | _ \<Rightarrow> [])"

definition isValidJSON :: "runtime \<Rightarrow> jsval \<Rightarrow> bool" where
  "isValidJSON rt v = (json_parse rt (js_toString v) \<noteq> None)"

text \<open>\<open>parseSlots\<close>: \<open>None\<close> is the \<open>null\<close> it returns.\<close>

definition parseSlots :: "runtime \<Rightarrow> jsval \<Rightarrow> jsval list option" where
  "parseSlots rt slots =
     (case slots of
        JArr xs \<Rightarrow> Some xs
      | JStr s \<Rightarrow>
          (case json_parse rt s of
             Some (JArr xs) \<Rightarrow> Some xs
           | Some other \<Rightarrow> None
           | None \<Rightarrow> Some (map JNum (List.map_filter (number_of_string rt) (arrayifyCommaString slots))))
      | _ \<Rightarrow> None)"

text \<open>The numbers of \<open>parseRange\<close>: what \<open>Number\<close> reads from a piece of the range, an
  integer or \<open>Infinity\<close> (\<open>None\<close> is \<open>NaN\<close>; no piece holds a minus sign), with the
  comparison \<open>i <= end\<close> and the step \<open>i++\<close>, which leaves \<open>Infinity\<close> where it is.\<close>

datatype range_number = Finite int | Infinity

definition number_piece :: "runtime \<Rightarrow> string \<Rightarrow> range_number option" where
  "number_piece rt s =
     (if number_is_infinite rt s then Some Infinity else map_option Finite (number_of_string rt s))"

fun number_le :: "range_number \<Rightarrow> range_number \<Rightarrow> bool" where
  "number_le (Finite a) (Finite b) = (a \<le> b)"
| "number_le x Infinity = True"
| "number_le Infinity (Finite b) = False"

fun number_succ :: "range_number \<Rightarrow> range_number" where
  "number_succ (Finite a) = Finite (a + 1)"
| "number_succ Infinity = Infinity"

text \<open>The loop \<open>for (let i = start; i <= end; i++) result.push(i)\<close>. Nothing bounds it:
  \<open>None\<close> is a loop that does not end.\<close>

partial_function (option) range_loop ::
  "range_number \<Rightarrow> range_number \<Rightarrow> range_number list \<Rightarrow> range_number list option" where
  "range_loop i end result =
     (if number_le i end then range_loop (number_succ i) end (result @ [i]) else Some result)"

text \<open>\<open>parseRange\<close>: \<open>None\<close> when the call does not return, \<open>Some None\<close> for the \<open>null\<close>
  it returns, \<open>Some (Some xs)\<close> for an array.\<close>

definition parseRange :: "runtime \<Rightarrow> jsval \<Rightarrow> range_number list option option" where
  "parseRange rt v =
     (case v of
        JStr s \<Rightarrow>
          if s = [] then Some None
          else if CHR ''-'' \<in> set s then
            (case map (number_piece rt) (split_on CHR ''-'' s) of
               Some start # Some end # _ \<Rightarrow>
                 if \<not> number_le start end then Some None
                 else map_option Some (range_loop start end [])
             | _ \<Rightarrow> Some None)
          else Some (map_option (\<lambda>n. [n]) (number_piece rt s))
      | _ \<Rightarrow> Some None)"

subsection \<open>validateClients, validateWorkers, validateTasks\<close>

text \<open>The loops carry the \<open>Set\<close> of the ids met so far.\<close>

definition duplicateCheck :: "string \<Rightarrow> nat \<Rightarrow> jsval \<Rightarrow> jsval list \<Rightarrow> verror list" where
  "duplicateCheck idField rowIndex ident ids =
     (if truthy ident \<and> set_has ids ident
      then [verr rowIndex idField [ident] ''DuplicateID''] else [])"

definition remember :: "jsval \<Rightarrow> jsval list \<Rightarrow> jsval list" where
  "remember ident ids = (if truthy ident then set_add ids ident else ids)"

definition clientChecks :: "runtime \<Rightarrow> jsval list \<Rightarrow> jsval list \<Rightarrow> nat \<Rightarrow> jsval \<Rightarrow> js_error + verror list" where
  "clientChecks rt taskIds clientIds rowIndex client =
     bindE (validateRequiredFields client (requiredFields ''clients'') rowIndex) (\<lambda>missing.
     bindE (get_prop client ''ClientID'') (\<lambda>clientID.
     bindE (get_prop client ''PriorityLevel'') (\<lambda>priorityLevel.
     bindE (get_prop client ''RequestedTaskIDs'') (\<lambda>requestedTaskIDs.
     bindE (get_prop client ''AttributesJSON'') (\<lambda>attributesJSON.
     Inr (missing
       @ duplicateCheck ''ClientID'' rowIndex clientID clientIds
       @ (case priorityLevel of
            JUndef \<Rightarrow> []
          | JNum p \<Rightarrow> if 1 \<le> p \<and> p \<le> 5 then [] else [verr rowIndex ''PriorityLevel'' [] ''RangeError'']
          | _ \<Rightarrow> [verr rowIndex ''PriorityLevel'' [] ''TypeError''])
       @ (if truthy requestedTaskIDs then
            concat (map (\<lambda>taskId.
              if \<not> set_has taskIds (JStr taskId)
              then [verr rowIndex ''RequestedTaskIDs'' [JStr taskId] ''UnknownReference''] else [])
              (arrayifyCommaString requestedTaskIDs))
          else [])
       @ (if truthy attributesJSON \<and> \<not> isValidJSON rt attributesJSON
          then [verr rowIndex ''AttributesJSON'' [] ''TypeError''] else [])))))))"

fun clientsLoop :: "runtime \<Rightarrow> jsval list \<Rightarrow> jsval list \<Rightarrow> nat \<Rightarrow> jsval list \<Rightarrow> js_error + verror list" where
  "clientsLoop rt taskIds clientIds i [] = Inr []"
| "clientsLoop rt taskIds clientIds i (client # clients) =
     bindE (clientChecks rt taskIds clientIds (i + 1) client) (\<lambda>found.
     bindE (get_prop client ''ClientID'') (\<lambda>clientID.
     bindE (clientsLoop rt taskIds (remember clientID clientIds) (i + 1) clients) (\<lambda>rest.
     Inr (found @ rest))))"

definition validateClients :: "runtime \<Rightarrow> jsval list \<Rightarrow> jsval \<Rightarrow> js_error + verror list" where
  "validateClients rt clients tasks =
     bindE (elements tasks) (\<lambda>ts.
     bindE (mapE (\<lambda>t. get_prop t ''TaskID'') ts) (\<lambda>taskIds.
     clientsLoop rt taskIds [] 0 clients))"

definition workerChecks :: "runtime \<Rightarrow> jsval list \<Rightarrow> nat \<Rightarrow> jsval \<Rightarrow> js_error + verror list" where
  "workerChecks rt workerIds rowIndex worker =
     bindE (validateRequiredFields worker (requiredFields ''workers'') rowIndex) (\<lambda>missing.
     bindE (get_prop worker ''WorkerID'') (\<lambda>workerID.
     bindE (get_prop worker ''Skills'') (\<lambda>skills.
     bindE (get_prop worker ''AvailableSlots'') (\<lambda>availableSlots.
     bindE (get_prop worker ''MaxLoadPerPhase'') (\<lambda>maxLoadPerPhase.
     Inr (missing
       @ duplicateCheck ''WorkerID'' rowIndex workerID workerIds
       @ (if truthy skills \<and> length (arrayifyCommaString skills) = 0
          then [verr rowIndex ''Skills'' [] ''LogicalConflict''] else [])
       @ (if truthy availableSlots then
            (case parseSlots rt availableSlots of
               None \<Rightarrow> [verr rowIndex ''AvailableSlots'' [] ''TypeError'']
             | Some slots \<Rightarrow>
                 if list_ex (\<lambda>slot. \<not> is_number slot) slots
                 then [verr rowIndex ''AvailableSlots'' [] ''TypeError''] else [])
          else [])
       @ (case maxLoadPerPhase of
            JUndef \<Rightarrow> []
          | JNum m \<Rightarrow> if m < 0 then [verr rowIndex ''MaxLoadPerPhase'' [] ''RangeError''] else []
          | _ \<Rightarrow> [verr rowIndex ''MaxLoadPerPhase'' [] ''TypeError''])
       @ (if truthy availableSlots \<and> truthy maxLoadPerPhase then
            (case parseSlots rt availableSlots of
               None \<Rightarrow> []
             | Some slots \<Rightarrow>
                 if num_lt (Some (int (length slots))) (to_number rt maxLoadPerPhase)
                 then [verr rowIndex ''MaxLoadPerPhase'' [] ''WorkerOverload''] else [])
          else [])))))))"

fun workersLoop :: "runtime \<Rightarrow> jsval list \<Rightarrow> nat \<Rightarrow> jsval list \<Rightarrow> js_error + verror list" where
  "workersLoop rt workerIds i [] = Inr []"
| "workersLoop rt workerIds i (worker # workers) =
     bindE (workerChecks rt workerIds (i + 1) worker) (\<lambda>found.
     bindE (get_prop worker ''WorkerID'') (\<lambda>workerID.
     bindE (workersLoop rt (remember workerID workerIds) (i + 1) workers) (\<lambda>rest.
     Inr (found @ rest))))"

definition validateWorkers :: "runtime \<Rightarrow> jsval list \<Rightarrow> js_error + verror list" where
  "validateWorkers rt workers = workersLoop rt [] 0 workers"

text \<open>The checks of one task up to the last, with the \<open>PreferredPhases\<close> it will read.\<close>

definition taskChecksBeforePhases ::
  "jsval list \<Rightarrow> nat \<Rightarrow> jsval \<Rightarrow> js_error + verror list \<times> jsval" where
  "taskChecksBeforePhases taskIds rowIndex task =
     bindE (validateRequiredFields task (requiredFields ''tasks'') rowIndex) (\<lambda>missing.
     bindE (get_prop task ''TaskID'') (\<lambda>taskID.
     bindE (get_prop task ''Duration'') (\<lambda>duration.
     bindE (get_prop task ''RequiredSkills'') (\<lambda>requiredSkills.
     bindE (get_prop task ''MaxConcurrent'') (\<lambda>maxConcurrent.
     bindE (get_prop task ''PreferredPhases'') (\<lambda>preferredPhases.
     Inr (missing
       @ duplicateCheck ''TaskID'' rowIndex taskID taskIds
       @ (case duration of
            JUndef \<Rightarrow> []
          | JNum d \<Rightarrow> if d < 1 then [verr rowIndex ''Duration'' [] ''RangeError''] else []
          | _ \<Rightarrow> [verr rowIndex ''Duration'' [] ''TypeError''])
       @ (if truthy requiredSkills \<and> length (arrayifyCommaString requiredSkills) = 0
          then [verr rowIndex ''RequiredSkills'' [] ''LogicalConflict''] else [])
       @ (if maxConcurrent \<noteq> JUndef \<and> \<not> is_number maxConcurrent
          then [verr rowIndex ''MaxConcurrent'' [] ''TypeError''] else []),
       preferredPhases)))))))"

text \<open>The last check calls \<open>parseRange\<close>, which may not return: the checks of a task, the
  loop over the tasks and \<open>validateTasks\<close> are \<open>None\<close> then, and otherwise \<open>Some\<close> of
  what they throw or return.\<close>

definition taskChecks ::
  "runtime \<Rightarrow> jsval list \<Rightarrow> nat \<Rightarrow> jsval \<Rightarrow> (js_error + verror list) option" where
  "taskChecks rt taskIds rowIndex task =
     (case taskChecksBeforePhases taskIds rowIndex task of
        Inl e \<Rightarrow> Some (Inl e)
      | Inr (found, preferredPhases) \<Rightarrow>
          if truthy preferredPhases then
            (case parseRange rt preferredPhases of
               None \<Rightarrow> None
             | Some None \<Rightarrow> Some (Inr (found @ [verr rowIndex ''PreferredPhases'' [] ''TypeError'']))
             | Some (Some phases) \<Rightarrow> Some (Inr found))
          else Some (Inr found))"

fun tasksLoop ::
  "runtime \<Rightarrow> jsval list \<Rightarrow> nat \<Rightarrow> jsval list \<Rightarrow> (js_error + verror list) option" where
  "tasksLoop rt taskIds i [] = Some (Inr [])"
| "tasksLoop rt taskIds i (task # tasks) =
     (case taskChecks rt taskIds (i + 1) task of
        None \<Rightarrow> None
      | Some (Inl e) \<Rightarrow> Some (Inl e)
      | Some (Inr found) \<Rightarrow>
          (case get_prop task ''TaskID'' of
             Inl e \<Rightarrow> Some (Inl e)
           | Inr taskID \<Rightarrow>
               (case tasksLoop rt (remember taskID taskIds) (i + 1) tasks of
                  None \<Rightarrow> None
                | Some (Inl e) \<Rightarrow> Some (Inl e)
                | Some (Inr rest) \<Rightarrow> Some (Inr (found @ rest)))))"

definition validateTasks :: "runtime \<Rightarrow> jsval list \<Rightarrow> (js_error + verror list) option" where
  "validateTasks rt tasks = tasksLoop rt [] 0 tasks"

subsection \<open>validateRecords\<close>

text \<open>
  Two things stand outside the function and are arguments here. \<open>cached\<close> is what the Redis
  cache answers for the key of this call: \<open>Some\<close> result when the cache is available and
  holds one, \<open>None\<close> when it is not available, has none or fails. \<open>crossEntity\<close> is
  \<open>validateCrossEntityRules\<close>, whose findings are only appended: it may return any list,
  throw, or (it calls \<open>parseRange\<close> too) not return. \<open>validateRecords\<close> is \<open>None\<close> when
  the call does not return, and \<open>Some\<close> of the findings it returns otherwise.
\<close>

text \<open>\<open>error.message\<close> is the engine's text for a \<open>TypeError\<close> or \<open>SyntaxError\<close>; the
  name of the error stands for it here.\<close>

definition error_message :: "js_error \<Rightarrow> string" where
  "error_message e =
     (case e of TypeError \<Rightarrow> ''TypeError'' | SyntaxError \<Rightarrow> ''SyntaxError''
      | NotAnArray \<Rightarrow> ''Not an array'')"

definition systemError :: "js_error \<Rightarrow> verror" where
  "systemError e =
     \<lparr> vrow = 0, vfield = ''system'', vmessage = [JStr (error_message e)],
        vtype = ''SystemError'', vseverity = ''high'' \<rparr>"

definition validateRecords :: "runtime \<Rightarrow> verror list option
    \<Rightarrow> (jsval \<Rightarrow> jsval \<Rightarrow> jsval \<Rightarrow> jsval \<Rightarrow> (js_error + verror list) option)
    \<Rightarrow> jsval \<Rightarrow> jsval \<Rightarrow> jsval \<Rightarrow> verror list option" where
  "validateRecords rt cached crossEntity data entityType storeArg =
     (let fullDataStore = (if storeArg = JUndef then JObj [] else storeArg) in
      case data of
        JArr records \<Rightarrow>
          (case cached of
             Some cachedValidation \<Rightarrow> Some cachedValidation
           | None \<Rightarrow>
               (case
                  (if entityType = JStr ''clients'' then
                     Some (bindE (get_prop fullDataStore ''tasks'') (\<lambda>tasks.
                       bindE (validateClients rt records (js_or tasks (JArr []))) (\<lambda>e. Inr (Some e))))
                   else if entityType = JStr ''workers'' then
                     Some (bindE (validateWorkers rt records) (\<lambda>e. Inr (Some e)))
                   else if entityType = JStr ''tasks'' then
                     map_option (\<lambda>r. bindE r (\<lambda>e. Inr (Some e))) (validateTasks rt records)
                   else Some (Inr None)) of
                  None \<Rightarrow> None
                | Some (Inl e) \<Rightarrow> Some [systemError e]
                | Some (Inr None) \<Rightarrow> Some [verr 0 ''entityType'' [entityType] ''TypeError'']
                | Some (Inr (Some found)) \<Rightarrow>
                    (case
                       bindE (get_prop fullDataStore ''clients'') (\<lambda>clients.
                       bindE (get_prop fullDataStore ''workers'') (\<lambda>workers.
                       bindE (get_prop fullDataStore ''tasks'') (\<lambda>tasks.
                       bindE (get_prop fullDataStore ''rules'') (\<lambda>rules.
                         Inr (if truthy clients \<and> truthy workers \<and> truthy tasks
                              then Some (clients, workers, tasks, js_or rules (JArr []))
                              else None))))) of
                       Inl e \<Rightarrow> Some [systemError e]
                     | Inr None \<Rightarrow> Some found
                     | Inr (Some (clients, workers, tasks, rules)) \<Rightarrow>
                         (case crossEntity clients workers tasks rules of
                            None \<Rightarrow> None
                          | Some (Inl e) \<Rightarrow> Some [systemError e]
                          | Some (Inr cross) \<Rightarrow> Some (found @ cross)))))
      | _ \<Rightarrow> Some [verr 0 ''data'' [] ''TypeError''])"


section \<open>Vocabulary of the properties\<close>

text \<open>A record is any value whose fields can be read: everything but \<open>null\<close> and
  \<open>undefined\<close>. \<open>field_value\<close> is the field as the validators read it.\<close>

definition is_record :: "jsval \<Rightarrow> bool" where
  "is_record v = (v \<noteq> JUndef \<and> v \<noteq> JNull)"

definition field_value :: "jsval \<Rightarrow> string \<Rightarrow> jsval" where
  "field_value v f = (case get_prop v f of Inr x \<Rightarrow> x | Inl e \<Rightarrow> JUndef)"

text \<open>The inputs of the examples hold numbers, arrays and identifiers only, no text that
  \<open>JSON.parse\<close> or \<open>Number\<close> would have to read. The runtime of the examples rejects
  every text; none of them consults it.\<close>

definition example_runtime :: runtime where
  "example_runtime =
     \<lparr> json_parse = (\<lambda>s. None), number_of_string = (\<lambda>s. None), number_is_infinite = (\<lambda>s. False) \<rparr>"

text \<open>Three tasks, and three co-run rules that pair them in a triangle.\<close>

definition triangle_tasks :: jsval where
  "triangle_tasks =
     JArr [JObj [(''TaskID'', JStr ''T1'')], JObj [(''TaskID'', JStr ''T2'')],
           JObj [(''TaskID'', JStr ''T3'')]]"

definition triangle_rules :: jsval where
  "triangle_rules =
     JArr [JObj [(''type'', JStr ''coRun''), (''tasks'', JArr [JStr ''T1'', JStr ''T2''])],
           JObj [(''type'', JStr ''coRun''), (''tasks'', JArr [JStr ''T2'', JStr ''T3''])],
           JObj [(''type'', JStr ''coRun''), (''tasks'', JArr [JStr ''T3'', JStr ''T1''])]]"

text \<open>A single co-run rule over two tasks.\<close>

definition single_pair_rule :: jsval where
  "single_pair_rule = JObj [(''type'', JStr ''coRun''), (''tasks'', JArr [JStr ''T1'', JStr ''T2''])]"

text \<open>A co-run rule that names one task twice.\<close>

definition repeated_task_rule :: jsval where
  "repeated_task_rule =
     JObj [(''type'', JStr ''coRun''), (''tasks'', JArr [JStr ''T1'', JStr ''T1'', JStr ''T2''])]"

text \<open>Some co-run rule among the rules holds \<open>x\<close> and \<open>y\<close> at two positions of its
  \<open>tasks\<close>.\<close>

definition co_run_pair :: "jsval list \<Rightarrow> jsval \<Rightarrow> jsval \<Rightarrow> bool" where
  "co_run_pair rules x y =
     list_ex (\<lambda>r. field_value r ''type'' = JStr ''coRun''
        \<and> (case field_value r ''tasks'' of
              JArr ts \<Rightarrow> (x, y) \<in> set (pairs_of ts) \<or> (y, x) \<in> set (pairs_of ts)
            | _ \<Rightarrow> False)) rules"

text \<open>A worker with the given slots and maximal load, and a task of duration 3 that
  prefers phase 1.\<close>

definition worker_with :: "int list \<Rightarrow> int \<Rightarrow> jsval" where
  "worker_with slots maxLoad =
     JObj [(''WorkerID'', JStr ''W1''), (''Skills'', JStr ''js''),
           (''AvailableSlots'', JArr (map JNum slots)), (''MaxLoadPerPhase'', JNum maxLoad)]"

definition phase_one_task :: jsval where
  "phase_one_task =
     JObj [(''TaskID'', JStr ''T1''), (''PreferredPhases'', JArr [JNum 1]), (''Duration'', JNum 3)]"

definition client_with :: "jsval \<Rightarrow> jsval" where
  "client_with ident = JObj [(''ClientID'', ident), (''PriorityLevel'', JNum 1)]"

text \<open>The rows (counted from 1, as the findings count them) of the records whose id field
  holds \<open>v\<close>, and the \<open>DuplicateID\<close> findings raised at given rows: a finding names its
  row, and its message holds the id of that row as text only. Then, for the proofs, the
  findings whose message was filled in with \<open>v\<close>, and the number of times \<open>v\<close> ends up
  among the duplicates of \<open>validateDuplicateIds\<close>, from the number \<open>k\<close> of records still
  to come and the two sets so far.\<close>

definition rows_with_id :: "string \<Rightarrow> jsval \<Rightarrow> jsval list \<Rightarrow> nat list" where
  "rows_with_id idField v records =
     map (\<lambda>p. fst p + 1) (filter (\<lambda>p. field_value (snd p) idField = v) (indexed records))"

definition duplicate_findings_at :: "nat list \<Rightarrow> verror list \<Rightarrow> verror list" where
  "duplicate_findings_at rows found =
     filter (\<lambda>e. vtype e = ''DuplicateID'' \<and> vrow e \<in> set rows) found"

definition duplicate_errors :: "jsval \<Rightarrow> verror list \<Rightarrow> verror list" where
  "duplicate_errors v found = filter (\<lambda>e. vtype e = ''DuplicateID'' \<and> vmessage e = [v]) found"

definition expected_duplicates :: "jsval \<Rightarrow> nat \<Rightarrow> jsval list \<Rightarrow> jsval list \<Rightarrow> nat" where
  "expected_duplicates v k seen dups =
     (if v \<in> set dups then length (filter (\<lambda>d. d = v) dups)
      else if (v \<in> set seen \<and> 1 \<le> k) \<or> 2 \<le> k then 1 else 0)"

text \<open>A runtime whose \<open>Number\<close> reads the texts \<open>1\<close> and \<open>3\<close> as these integers and
  the text \<open>Infinity\<close> as \<open>Infinity\<close>, and a task with all its required fields and a
  given \<open>PreferredPhases\<close>.\<close>

definition range_runtime :: runtime where
  "range_runtime =
     \<lparr> json_parse = (\<lambda>s. None),
       number_of_string = (\<lambda>s. if s = ''1'' then Some 1 else if s = ''3'' then Some 3 else None),
       number_is_infinite = (\<lambda>s. s = ''Infinity'') \<rparr>"

definition task_with_phases :: "string \<Rightarrow> jsval" where
  "task_with_phases phases =
     JObj [(''TaskID'', JStr ''T1''), (''Duration'', JNum 2), (''RequiredSkills'', JStr ''js''),
           (''PreferredPhases'', JStr phases)]"

subsection \<open>Graphs\<close>

text \<open>The edge relation of a graph, and what it means for it to contain a cycle.\<close>

definition edges :: "'a graph \<Rightarrow> ('a \<times> 'a) set" where
  "edges g = {(u, v). v \<in> set (neighbors g u)}"

definition cyclic :: "'a graph \<Rightarrow> bool" where
  "cyclic g = (\<exists>n. (n, n) \<in> (edges g)\<^sup>+)"

text \<open>Every successor is itself a key of the \<open>Map\<close>, as in every graph that \<open>createGraph\<close>
  and \<open>addEdge\<close> build.\<close>

definition successors_are_keys :: "'a graph \<Rightarrow> bool" where
  "successors_are_keys g = list_all (\<lambda>e. list_all (\<lambda>n. map_has g n) (snd e)) g"

text \<open>\<open>u\<close> occurs in \<open>xs\<close> before the first occurrence of \<open>v\<close>.\<close>

definition comes_before :: "'a list \<Rightarrow> 'a \<Rightarrow> 'a \<Rightarrow> bool" where
  "comes_before xs u v = (u \<in> set (takeWhile (\<lambda>x. x \<noteq> v) xs) \<and> v \<in> set xs)"

text \<open>The invariant of the depth-first search: the nodes that are marked and no longer on the
  stack are closed under successors and lie on no cycle.\<close>

definition finished_ok :: "'a graph \<Rightarrow> 'a dfs_state \<Rightarrow> bool" where
  "finished_ok g st = (\<forall>x \<in> set (fst st) - set (snd st).
       set (neighbors g x) \<subseteq> set (fst st) - set (snd st) \<and> (x, x) \<notin> (edges g)\<^sup>+)"

text \<open>The number of entries not yet in the result that have \<open>k\<close> among their successors, and
  the invariant of the \<open>while\<close> loop of \<open>topologicalSort\<close>.\<close>

definition remaining :: "'a graph \<Rightarrow> 'a list \<Rightarrow> 'a \<Rightarrow> int" where
  "remaining g result k = int (length (filter (\<lambda>e. fst e \<notin> set result \<and> k \<in> set (snd e)) g))"

definition kahn_inv :: "'a graph \<Rightarrow> 'a list \<Rightarrow> 'a list \<Rightarrow> 'a degrees \<Rightarrow> bool" where
  "kahn_inv g queue result deg =
     (distinct (result @ queue) \<and> set (result @ queue) \<subseteq> fst ` set g
      \<and> (\<forall>k \<in> fst ` set g. map_of deg k = Some (Some (remaining g result k)))
      \<and> (\<forall>k \<in> fst ` set g. k \<in> set (result @ queue) \<longleftrightarrow> remaining g result k = 0)
      \<and> (\<forall>e \<in> set g. \<forall>v \<in> set (snd e). v \<in> set result \<longrightarrow> comes_before result (fst e) v))"

text \<open>The graph of the co-run rules holds every edge in both directions, and the first
  successor of a node (the first that \<open>for (const neighbor of ...)\<close> visits) is the other
  end of the first pair that touched the node. \<open>ranked\<close> numbers the nodes by the time
  their first pair was put in: the first successor of a node is no younger than the node,
  and as old only if the two are each other's first successor.\<close>

definition symmetric_graph :: "'a graph \<Rightarrow> bool" where
  "symmetric_graph g = (\<forall>x y. y \<in> set (neighbors g x) \<longrightarrow> x \<in> set (neighbors g y))"

definition first_neighbor :: "'a graph \<Rightarrow> 'a \<Rightarrow> 'a" where
  "first_neighbor g x = hd (neighbors g x)"

definition ranked :: "'a graph \<Rightarrow> ('a \<Rightarrow> nat) \<Rightarrow> nat \<Rightarrow> bool" where
  "ranked g t n =
     (\<forall>x. neighbors g x \<noteq> [] \<longrightarrow>
        t x < n \<and> t (first_neighbor g x) \<le> t x
        \<and> (t (first_neighbor g x) = t x \<longrightarrow> first_neighbor g (first_neighbor g x) = x))"

definition linked_in_pairs :: "'a graph \<Rightarrow> bool" where
  "linked_in_pairs g = (symmetric_graph g \<and> (\<exists>t n. ranked g t n))"

text \<open>A step from a node to its first successor; a cycle along one edge and back, or along
  the edge from a node to itself; and what holds of the path and the two sets while the
  search goes down: the path is the recursion stack, and every node marked and no longer on
  it has no successor.\<close>

definition first_step :: "'a graph \<Rightarrow> 'a \<Rightarrow> 'a \<Rightarrow> bool" where
  "first_step g u v = (neighbors g u \<noteq> [] \<and> v = first_neighbor g u)"

definition pair_cycle :: "'a graph \<Rightarrow> 'a list \<Rightarrow> bool" where
  "pair_cycle g c = (\<exists>x y. y \<in> set (neighbors g x) \<and> c = (if x = y then [x, x] else [x, y, x]))"

definition dfs_inv :: "'a graph \<Rightarrow> 'a list \<Rightarrow> 'a dfs_state \<Rightarrow> bool" where
  "dfs_inv g path st =
     (distinct path \<and> set (snd st) = set path
      \<and> (\<forall>v \<in> set (fst st) - set (snd st). neighbors g v = []))"

section \<open>Reading fields of records\<close>

lemma get_prop_record: "is_record v \<Longrightarrow> get_prop v f = Inr (field_value v f)"
  by (cases v) (auto simp: is_record_def field_value_def)

lemma get_prop_Inr_record: "get_prop v f = Inr x \<Longrightarrow> is_record v"
  by (cases v) (auto simp: is_record_def)

lemma elements_not_array: "\<not> is_array v \<Longrightarrow> elements v = Inl TypeError"
  by (cases v) auto

lemma mapE_records:
  "\<forall>x \<in> set xs. is_record x \<Longrightarrow>
     mapE (\<lambda>t. get_prop t f) xs = Inr (map (\<lambda>t. field_value t f) xs)"
  by (induction xs) (auto simp: get_prop_record)

lemma bindE_case: "bindE m f = (case m of Inl e \<Rightarrow> Inl e | Inr x \<Rightarrow> f x)"
  by (cases m) auto

section \<open>Phase-slot saturation\<close>

text \<open>
  C1. The claim takes the capacity of a phase to be the sum of \<open>MaxLoadPerPhase\<close> over
  the workers available in it. \<open>calculatePhaseCapacity\<close> adds 1 for each worker instead
  and never reads \<open>MaxLoadPerPhase\<close>. On the claim's own example (one worker with slot 1
  and maximal load 2, one task of duration 3 in phase 1) the finding reports capacity 1,
  not 2; and when the maximal load is 5, so that the demand of 3 fits the claimed
  capacity, the finding is pushed all the same.
\<close>

theorem saturation_capacity_counts_workers:
  "validatePhaseSlotSaturation rt (JArr [phase_one_task]) (JArr [worker_with [1] 2])
     = [\<lparr> fid = ''phase_saturation_1'', ftype = ''phase_slot_saturation'', severity = ''error'',
          entity = ''operational'', field = None, recordId = None, row = None,
          message = [JStr ''1'', JNum 3, JNum 1], suggestedFix = [JNum 2, JStr ''1''],
          affectedRecords = Some [JStr ''T1''] \<rparr>]
   \<and> validatePhaseSlotSaturation rt (JArr [phase_one_task]) (JArr [worker_with [1] 5])
     = validatePhaseSlotSaturation rt (JArr [phase_one_task]) (JArr [worker_with [1] 2])"
  by code_simp

section \<open>Depth-first search\<close>

text \<open>What a call of \<open>dfs\<close> that returns no cycle leaves behind: the recursion stack as
  it found it, the node marked, and nothing unmarked.\<close>

lemma dfs_none_facts:
  "dfs g n path st = (None, st') \<Longrightarrow>
     snd st' = snd st \<and> set (fst st) \<subseteq> set (fst st') \<and> n \<in> set (fst st') \<and> n \<notin> set (snd st)"
  "dfs_each g ns path st = (None, st') \<Longrightarrow>
     snd st' = snd st \<and> set (fst st) \<subseteq> set (fst st') \<and> set ns \<subseteq> set (fst st')
     \<and> (\<forall>y \<in> set ns. y \<notin> set (snd st))"
proof (induct g n path st and g ns path st arbitrary: st' and st' rule: dfs_dfs_each.induct)
  case (1 g node path visited recStack)
  show ?case
  proof (cases "node \<in> set recStack")
    case True
    with "1.prems" show ?thesis by (simp add: dfs.simps)
  next
    case notStack: False
    show ?thesis
    proof (cases "node \<in> set visited")
      case True
      with notStack "1.prems" show ?thesis by (auto simp: dfs.simps)
    next
      case False
      obtain r st1 where loop: "dfs_each g (neighbors g node) (path @ [node]) (node # visited, node # recStack) = (r, st1)"
        by (cases "dfs_each g (neighbors g node) (path @ [node]) (node # visited, node # recStack)")
      with "1.prems" notStack False have r: "r = None" and st': "st' = (fst st1, removeAll node (snd st1))"
        by (auto simp: dfs.simps split: option.splits prod.splits)
      from "1.hyps"[OF notStack False, of st1] loop r
      have "snd st1 = node # recStack" "set (node # visited) \<subseteq> set (fst st1)" by auto
      with st' notStack show ?thesis by auto
    qed
  qed
next
  case (2 g path st)
  then show ?case by simp
next
  case (3 g n ns path st)
  obtain r st1 where first: "dfs g n path st = (r, st1)" by (cases "dfs g n path st")
  with "3.prems" have r: "r = None" and rest: "dfs_each g ns path st1 = (None, st')"
    by (auto split: option.splits)
  from "3.hyps"(1)[of st1] first r
  have a: "snd st1 = snd st" "set (fst st) \<subseteq> set (fst st1)" "n \<in> set (fst st1)" "n \<notin> set (snd st)"
    by auto
  from "3.hyps"(2)[OF first[symmetric] r, of st'] rest
  have b: "snd st' = snd st1" "set (fst st1) \<subseteq> set (fst st')" "set ns \<subseteq> set (fst st')"
    "\<forall>y \<in> set ns. y \<notin> set (snd st1)" by auto
  from a b show ?case by auto
qed


text \<open>When a call returns no cycle, no successor of a node it marked was on the recursion
  stack of the call.\<close>

lemma dfs_none_successors:
  "dfs g n path st = (None, st') \<Longrightarrow>
     \<forall>x \<in> set (fst st') - set (fst st). \<forall>y \<in> set (neighbors g x). y \<notin> set (snd st)"
  "dfs_each g ns path st = (None, st') \<Longrightarrow>
     \<forall>x \<in> set (fst st') - set (fst st). \<forall>y \<in> set (neighbors g x). y \<notin> set (snd st)"
proof (induct g n path st and g ns path st arbitrary: st' and st' rule: dfs_dfs_each.induct)
  case (1 g node path visited recStack)
  show ?case
  proof (cases "node \<in> set recStack")
    case True
    with "1.prems" show ?thesis by (simp add: dfs.simps)
  next
    case notStack: False
    show ?thesis
    proof (cases "node \<in> set visited")
      case True
      with notStack "1.prems" show ?thesis by (auto simp: dfs.simps)
    next
      case False
      obtain r st1 where loop: "dfs_each g (neighbors g node) (path @ [node]) (node # visited, node # recStack) = (r, st1)"
        by (cases "dfs_each g (neighbors g node) (path @ [node]) (node # visited, node # recStack)")
      with "1.prems" notStack False have r: "r = None" and st': "st' = (fst st1, removeAll node (snd st1))"
        by (auto simp: dfs.simps split: option.splits prod.splits)
      from loop r have loopN: "dfs_each g (neighbors g node) (path @ [node]) (node # visited, node # recStack) = (None, st1)"
        by simp
      from "1.hyps"[OF notStack False loopN]
      have inner: "\<forall>x \<in> set (fst st1) - set (node # visited). \<forall>y \<in> set (neighbors g x). y \<notin> set (node # recStack)"
        by simp
      from dfs_none_facts(2)[OF loopN]
      have own: "\<forall>y \<in> set (neighbors g node). y \<notin> set (node # recStack)" by simp
      show ?thesis
      proof (intro ballI)
        fix x y assume x: "x \<in> set (fst st') - set (fst (visited, recStack))" and y: "y \<in> set (neighbors g x)"
        show "y \<notin> set (snd (visited, recStack))"
        proof (cases "x = node")
          case True
          with own y show ?thesis by auto
        next
          case False
          with x st' have "x \<in> set (fst st1) - set (node # visited)" by auto
          with inner y show ?thesis by auto
        qed
      qed
    qed
  qed
next
  case (2 g path st)
  then show ?case by simp
next
  case (3 g n ns path st)
  obtain r st1 where first: "dfs g n path st = (r, st1)" by (cases "dfs g n path st")
  with "3.prems" have r: "r = None" and rest: "dfs_each g ns path st1 = (None, st')"
    by (auto split: option.splits)
  from first r have firstN: "dfs g n path st = (None, st1)" by simp
  from "3.hyps"(1)[OF firstN]
  have a: "\<forall>x \<in> set (fst st1) - set (fst st). \<forall>y \<in> set (neighbors g x). y \<notin> set (snd st)" .
  from "3.hyps"(2)[OF first[symmetric] r rest]
  have b: "\<forall>x \<in> set (fst st') - set (fst st1). \<forall>y \<in> set (neighbors g x). y \<notin> set (snd st1)" .
  from dfs_none_facts(1)[OF firstN] have s: "snd st1 = snd st" by simp
  from a b s show ?case by auto
qed

text \<open>Two nodes joined by an edge in each direction: the search cannot mark the first of
  them and return without a cycle.\<close>

lemma dfs_finds_opposite_edges:
  assumes "b \<in> set (neighbors g a)" and "a \<in> set (neighbors g b)"
    and "a \<notin> set (fst st)" and "b \<notin> set (fst st)"
  shows "dfs g a path st \<noteq> (None, st')"
proof
  assume none: "dfs g a path st = (None, st')"
  obtain visited recStack where st: "st = (visited, recStack)" by (cases st)
  from dfs_none_facts(1)[OF none] st have notStack: "a \<notin> set recStack" by simp
  from assms(3) st have notVisited: "a \<notin> set visited" by simp
  obtain r st1 where loop: "dfs_each g (neighbors g a) (path @ [a]) (a # visited, a # recStack) = (r, st1)"
    by (cases "dfs_each g (neighbors g a) (path @ [a]) (a # visited, a # recStack)")
  with none st notStack notVisited have "r = None"
    by (auto simp: dfs.simps split: option.splits prod.splits)
  with loop have loopN: "dfs_each g (neighbors g a) (path @ [a]) (a # visited, a # recStack) = (None, st1)"
    by simp
  from dfs_none_facts(2)[OF loopN] assms(1)
  have "b \<in> set (fst st1)" and "b \<notin> set (a # recStack)" by auto
  with assms(4) st have "b \<in> set (fst st1) - set (fst (a # visited, a # recStack))" by auto
  with dfs_none_successors(2)[OF loopN] assms(2) have "a \<notin> set (snd (a # visited, a # recStack))"
    by blast
  then show False by simp
qed

lemma dfs_none_avoids:
  "dfs g n path st = (None, st') \<Longrightarrow> b \<in> set (neighbors g a) \<Longrightarrow> a \<in> set (neighbors g b) \<Longrightarrow>
     a \<notin> set (fst st) \<Longrightarrow> b \<notin> set (fst st) \<Longrightarrow> a \<notin> set (fst st') \<and> b \<notin> set (fst st')"
  "dfs_each g ns path st = (None, st') \<Longrightarrow> b \<in> set (neighbors g a) \<Longrightarrow> a \<in> set (neighbors g b) \<Longrightarrow>
     a \<notin> set (fst st) \<Longrightarrow> b \<notin> set (fst st) \<Longrightarrow> a \<notin> set (fst st') \<and> b \<notin> set (fst st')"
proof (induct g n path st and g ns path st arbitrary: st' and st' rule: dfs_dfs_each.induct)
  case (1 g node path visited recStack)
  note bidir = "1.prems"(2,3)
  note fresh = "1.prems"(4,5)
  show ?case
  proof (cases "node \<in> set recStack")
    case True
    with "1.prems" show ?thesis by (simp add: dfs.simps)
  next
    case notStack: False
    show ?thesis
    proof (cases "node \<in> set visited")
      case True
      with notStack "1.prems" show ?thesis by (auto simp: dfs.simps)
    next
      case False
      have na: "node \<noteq> a"
      proof
        assume "node = a"
        with "1.prems"(1) have "dfs g a path (visited, recStack) = (None, st')" by simp
        moreover have "dfs g a path (visited, recStack) \<noteq> (None, st')"
          using fresh by (intro dfs_finds_opposite_edges[OF bidir]) auto
        ultimately show False by blast
      qed
      have nb: "node \<noteq> b"
      proof
        assume "node = b"
        with "1.prems"(1) have "dfs g b path (visited, recStack) = (None, st')" by simp
        moreover have "dfs g b path (visited, recStack) \<noteq> (None, st')"
          using fresh by (intro dfs_finds_opposite_edges[OF bidir(2,1)]) auto
        ultimately show False by blast
      qed
      obtain r st1 where loop: "dfs_each g (neighbors g node) (path @ [node]) (node # visited, node # recStack) = (r, st1)"
        by (cases "dfs_each g (neighbors g node) (path @ [node]) (node # visited, node # recStack)")
      with "1.prems"(1) notStack False have r: "r = None" and st': "st' = (fst st1, removeAll node (snd st1))"
        by (auto simp: dfs.simps split: option.splits prod.splits)
      from loop r have loopN: "dfs_each g (neighbors g node) (path @ [node]) (node # visited, node # recStack) = (None, st1)"
        by simp
      have "a \<notin> set (fst (node # visited, node # recStack))" "b \<notin> set (fst (node # visited, node # recStack))"
        using na nb fresh by auto
      from "1.hyps"[OF notStack False loopN bidir this] st' show ?thesis by simp
    qed
  qed
next
  case (2 g path st)
  then show ?case by simp
next
  case (3 g n ns path st)
  obtain r st1 where first: "dfs g n path st = (r, st1)" by (cases "dfs g n path st")
  with "3.prems"(1) have r: "r = None" and rest: "dfs_each g ns path st1 = (None, st')"
    by (auto split: option.splits)
  from first r have firstN: "dfs g n path st = (None, st1)" by simp
  from "3.hyps"(1)[OF firstN "3.prems"(2,3,4,5)]
  have a: "a \<notin> set (fst st1)" "b \<notin> set (fst st1)" by simp_all
  from "3.hyps"(2)[OF first[symmetric] r rest "3.prems"(2,3) a]
  show ?case by simp
qed

lemma firstCycle_none_avoids:
  assumes "b \<in> set (neighbors g a)" and "a \<in> set (neighbors g b)"
  shows "firstCycle g nodes st = None \<Longrightarrow> a \<notin> set (fst st) \<Longrightarrow> b \<notin> set (fst st) \<Longrightarrow>
           a \<notin> set nodes"
proof (induction nodes arbitrary: st)
  case Nil
  then show ?case by simp
next
  case (Cons n nodes)
  show ?case
  proof (cases "n \<in> set (fst st)")
    case True
    with Cons show ?thesis by auto
  next
    case False
    obtain r st1 where first: "dfs g n [] st = (r, st1)" by (cases "dfs g n [] st")
    with Cons.prems(1) False have r: "r = None" and rest: "firstCycle g nodes st1 = None"
      by (auto split: option.splits)
    from first r have firstN: "dfs g n [] st = (None, st1)" by simp
    from dfs_none_avoids(1)[OF firstN assms Cons.prems(2,3)]
    have av: "a \<notin> set (fst st1)" "b \<notin> set (fst st1)" by auto
    from dfs_none_facts(1)[OF firstN] have "n \<in> set (fst st1)" by simp
    with av have "n \<noteq> a" by auto
    with Cons.IH[OF rest av] show ?thesis by simp
  qed
qed

lemma opposite_edges_give_cycle:
  assumes "b \<in> set (neighbors g a)" and "a \<in> set (neighbors g b)" and "a \<in> set (map fst g)"
  shows "\<exists>cycle. firstCycle g (map fst g) ([], []) = Some cycle"
proof (cases "firstCycle g (map fst g) ([], [])")
  case None
  from firstCycle_none_avoids[OF assms(1,2) None] assms(3) show ?thesis by simp
next
  case (Some c)
  then show ?thesis by blast
qed


section \<open>Circular co-run groups\<close>

text \<open>
  C2. With the three rules \<open>[T1,T2]\<close>, \<open>[T2,T3]\<close>, \<open>[T3,T1]\<close> over the tasks
  \<open>T1, T2, T3\<close>, \<open>detectCircularCoRuns\<close> reports exactly one \<open>circular_corun\<close>
  error, but its cycle is \<open>T1, T2, T1\<close>: the search follows the edge from \<open>T1\<close> to
  \<open>T2\<close> and then the opposite edge of the same pair. \<open>T3\<close> is not on it.
\<close>

theorem triangle_reports_two_node_cycle:
  "detectCircularCoRuns triangle_tasks triangle_rules
     = [circular_corun [JStr ''T1'', JStr ''T2'', JStr ''T1'']]
   \<and> JStr ''T3'' \<notin> set [JStr ''T1'', JStr ''T2'', JStr ''T1'']"
  by code_simp

lemma map_of_map_set: "map_of (map_set m k v) = (map_of m)(k \<mapsto> v)"
  by (induction m) auto

lemma keys_map_set: "fst ` set (map_set m k v) = insert k (fst ` set m)"
  by (induction m) force+

lemma neighbors_map_set: "neighbors (map_set g k v) x = (if x = k then v else neighbors g x)"
  by (simp add: neighbors_def map_of_map_set)

lemma keys_initial_graph:
  "fst ` set (foldl (\<lambda>g k. map_set g k []) g0 ids) = fst ` set g0 \<union> set ids"
  by (induction ids arbitrary: g0) (auto simp: keys_map_set)

lemma linkTasks_keys: "fst ` set (linkTasks g p) = fst ` set g"
  by (cases p) (auto simp: linkTasks_def Let_def keys_map_set graph_has_def map_has_def)

lemma linkTasks_mono: "set (neighbors g x) \<subseteq> set (neighbors (linkTasks g p) x)"
  by (cases p) (auto simp: linkTasks_def Let_def neighbors_map_set add_node_def)

lemma linkTasks_links:
  assumes "graph_has g a" and "graph_has g b"
  shows "b \<in> set (neighbors (linkTasks g (a, b)) a) \<and> a \<in> set (neighbors (linkTasks g (a, b)) b)"
  using assms by (auto simp: linkTasks_def Let_def neighbors_map_set add_node_def)

lemma graph_has_linkTasks: "graph_has (linkTasks g p) k = graph_has g k"
  by (simp add: graph_has_def map_has_def linkTasks_keys)

lemma foldl_linkTasks_keys: "fst ` set (foldl linkTasks g ps) = fst ` set g"
  by (induction ps arbitrary: g) (auto simp: linkTasks_keys)

lemma foldl_linkTasks_mono: "set (neighbors g x) \<subseteq> set (neighbors (foldl linkTasks g ps) x)"
proof (induction ps arbitrary: g)
  case Nil
  then show ?case by simp
next
  case (Cons p ps)
  from linkTasks_mono[of g x p] Cons[of "linkTasks g p"] show ?case by auto
qed

lemma foldl_linkTasks_links:
  assumes "(a, b) \<in> set ps" and "graph_has g a" and "graph_has g b"
  shows "b \<in> set (neighbors (foldl linkTasks g ps) a) \<and> a \<in> set (neighbors (foldl linkTasks g ps) b)"
  using assms
proof (induction ps arbitrary: g)
  case Nil
  then show ?case by simp
next
  case (Cons p ps)
  show ?case
  proof (cases "p = (a, b)")
    case True
    from linkTasks_links[OF Cons.prems(2,3)] True
    have "b \<in> set (neighbors (linkTasks g p) a)" "a \<in> set (neighbors (linkTasks g p) b)" by auto
    with foldl_linkTasks_mono[of "linkTasks g p" _ ps] show ?thesis by auto
  next
    case False
    with Cons.prems(1) have "(a, b) \<in> set ps" by auto
    from Cons.IH[OF this, of "linkTasks g p"] Cons.prems(2,3) show ?thesis
      by (simp add: graph_has_linkTasks)
  qed
qed

lemma pairs_of_mem:
  "x \<in> set xs \<Longrightarrow> y \<in> set xs \<Longrightarrow> x \<noteq> y \<Longrightarrow>
     (x, y) \<in> set (pairs_of xs) \<or> (y, x) \<in> set (pairs_of xs)"
  by (induction xs) auto

lemma addCoRunRule_keys: "fst ` set (addCoRunRule g rule) = fst ` set g"
  by (auto simp: addCoRunRule_def foldl_linkTasks_keys split: sum.splits jsval.splits)

lemma addCoRunRule_mono: "set (neighbors g x) \<subseteq> set (neighbors (addCoRunRule g rule) x)"
  using foldl_linkTasks_mono[of g x]
  by (auto simp: addCoRunRule_def split: sum.splits jsval.splits)

lemma graph_has_addCoRunRule: "graph_has (addCoRunRule g rule) k = graph_has g k"
  by (simp add: graph_has_def map_has_def addCoRunRule_keys)

lemma addCoRunRule_links:
  assumes "get_prop rule ''tasks'' = Inr (JArr ts)" and "a \<in> set ts" and "b \<in> set ts" and "a \<noteq> b"
    and "graph_has g a" and "graph_has g b"
  shows "b \<in> set (neighbors (addCoRunRule g rule) a) \<and> a \<in> set (neighbors (addCoRunRule g rule) b)"
proof -
  from pairs_of_mem[OF assms(2,3,4)] consider "(a, b) \<in> set (pairs_of ts)" | "(b, a) \<in> set (pairs_of ts)"
    by blast
  then show ?thesis
  proof cases
    case 1
    from foldl_linkTasks_links[OF 1 assms(5,6)] assms(1) show ?thesis
      by (simp add: addCoRunRule_def)
  next
    case 2
    from foldl_linkTasks_links[OF 2 assms(6,5)] assms(1) show ?thesis
      by (simp add: addCoRunRule_def)
  qed
qed

lemma foldl_addCoRunRule_keys: "fst ` set (foldl addCoRunRule g rules) = fst ` set g"
  by (induction rules arbitrary: g) (auto simp: addCoRunRule_keys)

lemma foldl_addCoRunRule_mono: "set (neighbors g x) \<subseteq> set (neighbors (foldl addCoRunRule g rules) x)"
proof (induction rules arbitrary: g)
  case Nil
  then show ?case by simp
next
  case (Cons r rules)
  from addCoRunRule_mono[of g x r] Cons[of "addCoRunRule g r"] show ?case by auto
qed

lemma foldl_addCoRunRule_links:
  assumes "rule \<in> set rules" and "get_prop rule ''tasks'' = Inr (JArr ts)"
    and "a \<in> set ts" and "b \<in> set ts" and "a \<noteq> b"
    and "graph_has g a" and "graph_has g b"
  shows "b \<in> set (neighbors (foldl addCoRunRule g rules) a)
       \<and> a \<in> set (neighbors (foldl addCoRunRule g rules) b)"
  using assms(1,6,7)
proof (induction rules arbitrary: g)
  case Nil
  then show ?case by simp
next
  case (Cons r rules)
  show ?case
  proof (cases "r = rule")
    case True
    from addCoRunRule_links[OF assms(2,3,4,5) Cons.prems(2,3)] True
    have "b \<in> set (neighbors (addCoRunRule g r) a)" "a \<in> set (neighbors (addCoRunRule g r) b)" by auto
    with foldl_addCoRunRule_mono[of "addCoRunRule g r" _ rules] show ?thesis by auto
  next
    case False
    with Cons.prems(1) have "rule \<in> set rules" by auto
    from Cons.IH[OF this, of "addCoRunRule g r"] Cons.prems(2,3) show ?thesis
      by (simp add: graph_has_addCoRunRule)
  qed
qed

lemma coRunRulesOf_records:
  assumes "\<forall>r \<in> set rules. is_record r"
  shows "coRunRulesOf (JArr rules) = Inr (filter (\<lambda>r. field_value r ''type'' = JStr ''coRun'') rules)"
proof -
  have "mapE (\<lambda>rule. bindE (get_prop rule ''type'') (\<lambda>t. Inr (t = JStr ''coRun'', rule))) rules
      = Inr (map (\<lambda>r. (field_value r ''type'' = JStr ''coRun'', r)) rules)"
    using assms by (induction rules) (auto simp: get_prop_record)
  moreover have "map snd (filter fst (map (\<lambda>r. (field_value r ''type'' = JStr ''coRun'', r)) rules))
      = filter (\<lambda>r. field_value r ''type'' = JStr ''coRun'') rules"
    by (induction rules) auto
  ultimately show ?thesis by (simp add: coRunRulesOf_def)
qed

subsection \<open>The graph of the co-run rules\<close>

text \<open>Every pair puts in both edges, behind the successors that are there already.\<close>

lemma add_node_facts:
  "set (add_node xs y) = insert y (set xs)"
  "add_node xs y \<noteq> []"
  "hd (add_node xs y) = (if xs = [] then y else hd xs)"
  "add_node (add_node xs y) y = add_node xs y"
  by (auto simp: add_node_def)

lemma linkTasks_neighbors:
  assumes "graph_has g a" and "graph_has g b"
  shows "neighbors (linkTasks g (a, b)) x
     = (if x = a \<and> x = b then add_node (neighbors g a) a
        else if x = a then add_node (neighbors g a) b
        else if x = b then add_node (neighbors g b) a
        else neighbors g x)"
  using assms by (simp add: linkTasks_def Let_def neighbors_map_set add_node_facts(4))

lemma linkTasks_unchanged:
  "\<not> (graph_has g a \<and> graph_has g b) \<Longrightarrow> linkTasks g (a, b) = g"
  by (auto simp: linkTasks_def)

lemma linkTasks_symmetric:
  assumes "symmetric_graph g"
  shows "symmetric_graph (linkTasks g p)"
proof (cases p)
  case (Pair a b)
  show ?thesis
  proof (cases "graph_has g a \<and> graph_has g b")
    case True
    then have n: "\<And>x. neighbors (linkTasks g (a, b)) x
     = (if x = a \<and> x = b then add_node (neighbors g a) a
        else if x = a then add_node (neighbors g a) b
        else if x = b then add_node (neighbors g b) a
        else neighbors g x)"
      by (simp add: linkTasks_neighbors)
    show ?thesis
      unfolding symmetric_graph_def Pair
    proof (intro allI impI)
      fix x y
      assume "y \<in> set (neighbors (linkTasks g (a, b)) x)"
      then have "y \<in> set (neighbors g x) \<or> (x = a \<and> y = b) \<or> (x = b \<and> y = a)"
        unfolding n by (auto simp: add_node_facts(1) split: if_splits)
      then consider "y \<in> set (neighbors g x)" | "x = a \<and> y = b" | "x = b \<and> y = a" by blast
      then show "x \<in> set (neighbors (linkTasks g (a, b)) y)"
      proof cases
        case 1
        with assms have "x \<in> set (neighbors g y)" by (simp add: symmetric_graph_def)
        then show ?thesis unfolding n by (auto simp: add_node_facts(1))
      next
        case 2
        then show ?thesis unfolding n by (auto simp: add_node_facts(1))
      next
        case 3
        then show ?thesis unfolding n by (auto simp: add_node_facts(1))
      qed
    qed
  next
    case False
    with assms Pair show ?thesis by (simp add: linkTasks_unchanged)
  qed
qed

lemma linkTasks_ranked:
  assumes sym: "symmetric_graph g" and r: "ranked g t n"
    and has: "graph_has g a" "graph_has g b"
  shows "ranked (linkTasks g (a, b)) (\<lambda>x. if neighbors g x = [] then n else t x) (Suc n)"
proof -
  let ?g = "linkTasks g (a, b)"
  let ?t = "\<lambda>x. if neighbors g x = [] then n else t x"
  note n = linkTasks_neighbors[OF has]
  have other: "neighbors ?g x = neighbors g x" if "x \<noteq> a" "x \<noteq> b" for x
    using that by (simp add: n)
  have na: "neighbors ?g a = add_node (neighbors g a) b"
    by (simp add: n)
  have nb: "neighbors ?g b = add_node (neighbors g b) a"
    by (simp add: n)
  have old: "first_neighbor ?g x = first_neighbor g x" if "neighbors g x \<noteq> []" for x
  proof (cases "x = a \<or> x = b")
    case True
    then show ?thesis using that na nb by (auto simp: first_neighbor_def add_node_facts(3))
  next
    case False
    then show ?thesis using other[of x] by (simp add: first_neighbor_def)
  qed
  have new_a: "first_neighbor ?g a = b" if "neighbors g a = []"
    using that by (simp add: first_neighbor_def na add_node_def)
  have new_b: "first_neighbor ?g b = a" if "neighbors g b = []"
    using that by (simp add: first_neighbor_def nb add_node_def)
  have bound: "t x < n" if "neighbors g x \<noteq> []" for x
    using r that by (simp add: ranked_def)
  show ?thesis
    unfolding ranked_def
  proof (intro allI impI)
    fix x
    assume ne: "neighbors ?g x \<noteq> []"
    show "?t x < Suc n \<and> ?t (first_neighbor ?g x) \<le> ?t x
        \<and> (?t (first_neighbor ?g x) = ?t x \<longrightarrow> first_neighbor ?g (first_neighbor ?g x) = x)"
    proof (cases "neighbors g x = []")
      case False
      let ?y = "first_neighbor g x"
      have "?y \<in> set (neighbors g x)" using False by (simp add: first_neighbor_def)
      with sym have "x \<in> set (neighbors g ?y)" by (simp add: symmetric_graph_def)
      then have ny: "neighbors g ?y \<noteq> []" by auto
      from r False have "t ?y \<le> t x" and "t ?y = t x \<longrightarrow> first_neighbor g ?y = x"
        by (simp_all add: ranked_def)
      with False ny bound[OF False] show ?thesis
        by (simp add: old[OF False] old[OF ny])
    next
      case True
      have x: "x = a \<or> x = b"
      proof (rule ccontr)
        assume "\<not> (x = a \<or> x = b)"
        then have "neighbors ?g x = neighbors g x" using other[of x] by simp
        with ne True show False by simp
      qed
      define y where "y = (if x = a then b else a)"
      have fx: "first_neighbor ?g x = y"
        using x True new_a new_b by (auto simp: y_def)
      have ret: "first_neighbor ?g y = x" if "neighbors g y = []"
        using x that new_a new_b by (auto simp: y_def)
      have ty: "?t y \<le> n" using bound[of y] by (cases "neighbors g y = []") simp_all
      have eq: "neighbors g y = []" if "?t y = n"
        using that bound[of y] by (cases "neighbors g y = []") simp_all
      have tx: "?t x = n" using True by simp
      have c1: "?t x < Suc n" using tx by simp
      have c2: "?t (first_neighbor ?g x) \<le> ?t x" unfolding fx using ty tx by simp
      have c3: "first_neighbor ?g (first_neighbor ?g x) = x" if "?t (first_neighbor ?g x) = ?t x"
      proof -
        from that have "?t y = n" unfolding fx using tx by simp
        from ret[OF eq[OF this]] show ?thesis unfolding fx .
      qed
      from c1 c2 c3 show ?thesis by blast
    qed
  qed
qed

lemma linkTasks_linked_in_pairs:
  assumes "linked_in_pairs g"
  shows "linked_in_pairs (linkTasks g p)"
proof (cases p)
  case (Pair a b)
  from assms obtain t n where sym: "symmetric_graph g" and r: "ranked g t n"
    by (auto simp: linked_in_pairs_def)
  show ?thesis
  proof (cases "graph_has g a \<and> graph_has g b")
    case True
    from linkTasks_ranked[OF sym r] True linkTasks_symmetric[OF sym, of p] Pair
    show ?thesis unfolding linked_in_pairs_def by blast
  next
    case False
    with assms Pair show ?thesis by (simp add: linkTasks_unchanged)
  qed
qed

lemma foldl_linkTasks_linked_in_pairs:
  "linked_in_pairs g \<Longrightarrow> linked_in_pairs (foldl linkTasks g ps)"
  by (induction ps arbitrary: g) (simp_all add: linkTasks_linked_in_pairs)

lemma addCoRunRule_linked_in_pairs:
  "linked_in_pairs g \<Longrightarrow> linked_in_pairs (addCoRunRule g rule)"
  by (auto simp: addCoRunRule_def foldl_linkTasks_linked_in_pairs split: sum.splits jsval.splits)

lemma foldl_addCoRunRule_linked_in_pairs:
  "linked_in_pairs g \<Longrightarrow> linked_in_pairs (foldl addCoRunRule g rules)"
  by (induction rules arbitrary: g) (simp_all add: addCoRunRule_linked_in_pairs)

lemma neighbors_initial_graph:
  "neighbors (foldl (\<lambda>g k. map_set g k []) g0 ids) x = (if x \<in> set ids then [] else neighbors g0 x)"
  by (induction ids arbitrary: g0) (auto simp: neighbors_map_set)

lemma initial_graph_linked_in_pairs:
  "linked_in_pairs (foldl (\<lambda>g k. map_set g k []) [] ids)"
proof -
  have "neighbors ([] :: 'a graph) x = []" for x by (simp add: neighbors_def)
  then have "neighbors (foldl (\<lambda>g k. map_set g k []) [] ids) x = []" for x :: 'a
    by (simp add: neighbors_initial_graph)
  then show ?thesis
    by (simp add: linked_in_pairs_def symmetric_graph_def ranked_def)
qed

text \<open>Every edge comes from a pair.\<close>

lemma foldl_linkTasks_edges:
  "y \<in> set (neighbors (foldl linkTasks g ps) x) \<Longrightarrow>
     y \<in> set (neighbors g x)
     \<or> (((x, y) \<in> set ps \<or> (y, x) \<in> set ps) \<and> graph_has g x \<and> graph_has g y)"
proof (induction ps arbitrary: g)
  case Nil
  then show ?case by simp
next
  case (Cons p ps)
  obtain a b where p: "p = (a, b)" by (cases p)
  from Cons.IH[of "linkTasks g p"] Cons.prems
  consider "y \<in> set (neighbors (linkTasks g p) x)"
    | "((x, y) \<in> set ps \<or> (y, x) \<in> set ps) \<and> graph_has g x \<and> graph_has g y"
    by (auto simp: graph_has_linkTasks)
  then show ?case
  proof cases
    case 1
    show ?thesis
    proof (cases "graph_has g a \<and> graph_has g b")
      case True
      with 1 have "y \<in> set (neighbors g x) \<or> (x = a \<and> y = b) \<or> (x = b \<and> y = a)"
        unfolding p by (auto simp: linkTasks_neighbors add_node_facts(1) split: if_splits)
      with True p show ?thesis by auto
    next
      case False
      with 1 p show ?thesis by (simp add: linkTasks_unchanged)
    qed
  next
    case 2
    then show ?thesis by auto
  qed
qed

lemma addCoRunRule_edges:
  assumes "y \<in> set (neighbors (addCoRunRule g rule) x)"
  shows "y \<in> set (neighbors g x)
     \<or> ((\<exists>ts. get_prop rule ''tasks'' = Inr (JArr ts)
              \<and> ((x, y) \<in> set (pairs_of ts) \<or> (y, x) \<in> set (pairs_of ts)))
         \<and> graph_has g x \<and> graph_has g y)"
proof (cases "\<exists>ts. get_prop rule ''tasks'' = Inr (JArr ts)")
  case True
  then obtain ts where ts: "get_prop rule ''tasks'' = Inr (JArr ts)" by blast
  with assms have "y \<in> set (neighbors (foldl linkTasks g (pairs_of ts)) x)"
    by (simp add: addCoRunRule_def)
  from foldl_linkTasks_edges[OF this] ts show ?thesis by auto
next
  case False
  then have "addCoRunRule g rule = g"
    by (auto simp: addCoRunRule_def split: sum.splits jsval.splits)
  with assms show ?thesis by simp
qed

lemma foldl_addCoRunRule_edges:
  "y \<in> set (neighbors (foldl addCoRunRule g rules) x) \<Longrightarrow>
     y \<in> set (neighbors g x)
     \<or> ((\<exists>rule \<in> set rules. \<exists>ts. get_prop rule ''tasks'' = Inr (JArr ts)
              \<and> ((x, y) \<in> set (pairs_of ts) \<or> (y, x) \<in> set (pairs_of ts)))
         \<and> graph_has g x \<and> graph_has g y)"
proof (induction rules arbitrary: g)
  case Nil
  then show ?case by simp
next
  case (Cons r rules)
  from Cons.IH[of "addCoRunRule g r"] Cons.prems
  consider "y \<in> set (neighbors (addCoRunRule g r) x)"
    | "(\<exists>rule \<in> set rules. \<exists>ts. get_prop rule ''tasks'' = Inr (JArr ts)
              \<and> ((x, y) \<in> set (pairs_of ts) \<or> (y, x) \<in> set (pairs_of ts)))
         \<and> graph_has g x \<and> graph_has g y"
    by (auto simp: graph_has_addCoRunRule)
  then show ?case
  proof cases
    case 1
    from addCoRunRule_edges[OF 1] show ?thesis by auto
  next
    case 2
    then show ?thesis by auto
  qed
qed

subsection \<open>The search in such a graph\<close>

text \<open>The search goes from each node to its first successor and so never comes back from a
  node that has one. The ranks along its path never go up, so that the node it meets again
  is the last or the last but one of the path.\<close>

lemma first_step_rank:
  "ranked g t k \<Longrightarrow> first_step g u v \<Longrightarrow> t v \<le> t u \<and> (t v = t u \<longrightarrow> first_neighbor g v = u)"
  by (simp add: ranked_def first_step_def)

lemma first_step_edge: "first_step g u v \<Longrightarrow> v \<in> set (neighbors g u)"
  by (simp add: first_step_def first_neighbor_def)

lemma first_steps_rank:
  "ranked g t k \<Longrightarrow> successively (first_step g) (u # xs) \<Longrightarrow> t (last (u # xs)) \<le> t u"
proof (induction xs arbitrary: u)
  case Nil
  then show ?case by simp
next
  case (Cons x xs)
  then have "first_step g u x" and "successively (first_step g) (x # xs)" by simp_all
  from first_step_rank[OF Cons.prems(1) this(1)] Cons.IH[OF Cons.prems(1) this(2)]
  show ?case by simp
qed

lemma closing_cycle:
  assumes r: "ranked g t k" and d: "distinct path" and n: "n \<in> set path"
    and s: "successively (first_step g) (path @ [n])"
  shows "pair_cycle g (cycle_of path n)"
proof -
  from split_list_first[OF n] obtain pre post where
    path: "path = pre @ n # post" and pre: "n \<notin> set pre" by blast
  from d path have post: "n \<notin> set post" by simp
  have "dropWhile (\<lambda>x. x \<noteq> n) path = n # post"
    unfolding path using pre by (auto simp: dropWhile_append3)
  then have c: "cycle_of path n = n # post @ [n]" using n by (simp add: cycle_of_def)
  from s have s': "successively (first_step g) (n # post @ [n])"
    unfolding path by (simp add: successively_append_iff)
  show ?thesis
  proof (cases post)
    case Nil
    with s' have "first_step g n n" by simp
    from first_step_edge[OF this] c Nil show ?thesis
      unfolding pair_cycle_def by (intro exI[of _ n]) simp
  next
    case (Cons y rest)
    with s' have ny: "first_step g n y" and tail: "successively (first_step g) (y # rest @ [n])"
      by simp_all
    from post Cons have yn: "y \<noteq> n" by auto
    show ?thesis
    proof (cases rest)
      case Nil
      from first_step_edge[OF ny] c Cons Nil yn show ?thesis
        unfolding pair_cycle_def by (intro exI[of _ n] exI[of _ y]) auto
    next
      case (Cons z rest')
      with tail have yz: "first_step g y z" by simp
      from first_steps_rank[OF r tail] have "t n \<le> t y" by simp
      with first_step_rank[OF r ny] have "first_neighbor g y = n" by simp
      with yz have "z = n" by (simp add: first_step_def)
      with post \<open>post = y # rest\<close> Cons show ?thesis by simp
    qed
  qed
qed

lemma dfs_follows_first_neighbors:
  "symmetric_graph g \<Longrightarrow> ranked g t k \<Longrightarrow> dfs_inv g path st
     \<Longrightarrow> successively (first_step g) (path @ [n])
     \<Longrightarrow> (path = [] \<longrightarrow> neighbors g n \<noteq> [] \<and> n \<notin> set (fst st))
     \<Longrightarrow> \<exists>c st'. dfs g n path st = (Some c, st') \<and> pair_cycle g c"
  "symmetric_graph g \<Longrightarrow> ranked g t k \<Longrightarrow> dfs_inv g path st
     \<Longrightarrow> ns \<noteq> [] \<Longrightarrow> path \<noteq> []
     \<Longrightarrow> successively (first_step g) (path @ [hd ns])
     \<Longrightarrow> \<exists>c st'. dfs_each g ns path st = (Some c, st') \<and> pair_cycle g c"
proof (induct g n path st and g ns path st rule: dfs_dfs_each.induct)
  case (1 g node path visited recStack)
  note sym = "1.prems"(1) and r = "1.prems"(2) and inv = "1.prems"(3)
    and chain = "1.prems"(4) and root = "1.prems"(5)
  from inv have d: "distinct path" and stack: "set recStack = set path"
    and iso: "\<forall>v \<in> set visited - set recStack. neighbors g v = []"
    by (simp_all add: dfs_inv_def)
  show ?case
  proof (cases "node \<in> set recStack")
    case True
    with stack have "node \<in> set path" by simp
    from closing_cycle[OF r d this chain] True show ?thesis
      by (simp add: dfs.simps)
  next
    case notStack: False
    have nonempty: "neighbors g node \<noteq> []"
    proof (cases "path = []")
      case True
      with root show ?thesis by simp
    next
      case False
      with chain have "first_step g (last path) node"
        by (simp add: successively_append_iff)
      from first_step_edge[OF this] sym have "last path \<in> set (neighbors g node)"
        by (simp add: symmetric_graph_def)
      then show ?thesis by auto
    qed
    have notVisited: "node \<notin> set visited"
    proof
      assume "node \<in> set visited"
      with notStack iso have "neighbors g node = []" by simp
      with nonempty show False by simp
    qed
    have inv': "dfs_inv g (path @ [node]) (node # visited, node # recStack)"
      using d stack iso notStack by (auto simp: dfs_inv_def)
    have "first_step g node (hd (neighbors g node))"
      using nonempty by (simp add: first_step_def first_neighbor_def)
    with chain have chain': "successively (first_step g) ((path @ [node]) @ [hd (neighbors g node)])"
      by (simp add: successively_append_iff)
    from "1.hyps"[OF notStack notVisited sym r inv' nonempty _ chain']
    obtain c st' where
      "dfs_each g (neighbors g node) (path @ [node]) (node # visited, node # recStack) = (Some c, st')"
      and "pair_cycle g c" by auto
    with notStack notVisited show ?thesis by (simp add: dfs.simps)
  qed
next
  case (2 g path st)
  then show ?case by simp
next
  case (3 g n ns path st)
  from "3.prems"(6) have chain: "successively (first_step g) (path @ [n])" by simp
  from "3.hyps"(1)[OF "3.prems"(1,2,3) chain] "3.prems"(5)
  obtain c st' where "dfs g n path st = (Some c, st')" and "pair_cycle g c" by auto
  then show ?case by simp
qed

lemma firstCycle_pair_cycle:
  assumes sym: "symmetric_graph g" and r: "ranked g t k"
  shows "firstCycle g nodes (visited, []) = Some c \<Longrightarrow> \<forall>v \<in> set visited. neighbors g v = []
     \<Longrightarrow> pair_cycle g c"
proof (induction nodes arbitrary: visited)
  case Nil
  then show ?case by simp
next
  case (Cons node nodes)
  show ?case
  proof (cases "node \<in> set visited")
    case True
    with Cons show ?thesis by simp
  next
    case False
    show ?thesis
    proof (cases "neighbors g node = []")
      case True
      then have "dfs g node [] (visited, []) = (None, (node # visited, []))"
        using False by (simp add: dfs.simps)
      with Cons.prems(1) False have "firstCycle g nodes (node # visited, []) = Some c" by simp
      from Cons.IH[OF this] True Cons.prems(2) show ?thesis by simp
    next
      case nonempty: False
      have inv: "dfs_inv g [] (visited, [])" using Cons.prems(2) by (simp add: dfs_inv_def)
      from dfs_follows_first_neighbors(1)[OF sym r inv, of node] nonempty False
      obtain c' st' where "dfs g node [] (visited, []) = (Some c', st')" and "pair_cycle g c'"
        by auto
      with Cons.prems(1) False show ?thesis by simp
    qed
  qed
qed

subsection \<open>What is reported\<close>

text \<open>
  C3. Let the rule list hold a co-run rule whose \<open>tasks\<close> name two different ids \<open>a\<close>
  and \<open>b\<close>, both ids of tasks in the task list. Then \<open>detectCircularCoRuns\<close> returns
  exactly one finding, a \<open>circular_corun\<close> error, and its cycle runs along one co-run
  pair and back: it is \<open>x, y, x\<close> for two different task ids that some co-run rule
  names together, or \<open>x, x\<close> for a task id that some co-run rule names twice. No chain
  of rules is needed. The tasks and rules are records (a \<open>null\<close> entry makes the function
  answer with its \<open>cycle_detection_error\<close> warning), and the two ids are primitive
  values, as ids are.
\<close>

theorem corun_pair_reported_circular:
  assumes "\<forall>t \<in> set tasks. is_record t" and "\<forall>r \<in> set rules. is_record r"
    and "rule \<in> set rules"
    and "field_value rule ''type'' = JStr ''coRun''"
    and "field_value rule ''tasks'' = JArr ts"
    and "a \<in> set ts" and "b \<in> set ts" and "a \<noteq> b"
    and "is_prim a" and "is_prim b"
    and "a \<in> set (map (\<lambda>t. field_value t ''TaskID'') tasks)"
    and "b \<in> set (map (\<lambda>t. field_value t ''TaskID'') tasks)"
  shows "\<exists>x y. detectCircularCoRuns (JArr tasks) (JArr rules)
              = [circular_corun (if x = y then [x, x] else [x, y, x])]
          \<and> co_run_pair rules x y
          \<and> x \<in> set (map (\<lambda>t. field_value t ''TaskID'') tasks)
          \<and> y \<in> set (map (\<lambda>t. field_value t ''TaskID'') tasks)"
proof -
  let ?ids = "map (\<lambda>t. field_value t ''TaskID'') tasks"
  let ?coRunRules = "filter (\<lambda>r. field_value r ''type'' = JStr ''coRun'') rules"
  let ?initial = "foldl (\<lambda>g k. map_set g k []) [] ?ids"
  let ?g = "foldl addCoRunRule ?initial ?coRunRules"
  have rules: "coRunRulesOf (JArr rules) = Inr ?coRunRules"
    by (rule coRunRulesOf_records[OF assms(2)])
  have member: "rule \<in> set ?coRunRules" using assms(3,4) by simp
  then have nonempty: "length ?coRunRules \<noteq> 0" by (auto simp: filter_empty_conv)
  have graph: "coRunGraph (JArr tasks) ?coRunRules = Inr ?g"
    by (simp add: coRunGraph_def mapE_records[OF assms(1)])
  have keys0: "fst ` set ?initial = set ?ids" by (simp add: keys_initial_graph)
  then have has: "graph_has ?initial a" "graph_has ?initial b"
    using assms(9,10,11,12) by (auto simp: graph_has_def map_has_def)
  from assms(2,3) have "is_record rule" by blast
  with assms(5) have tasks: "get_prop rule ''tasks'' = Inr (JArr ts)" by (simp add: get_prop_record)
  from foldl_addCoRunRule_links[OF member tasks assms(6,7,8) has]
  have edges: "b \<in> set (neighbors ?g a)" "a \<in> set (neighbors ?g b)" by auto
  have "a \<in> fst ` set ?initial" using keys0 assms(11) by auto
  then have "a \<in> set (map fst ?g)" by (simp add: foldl_addCoRunRule_keys)
  from opposite_edges_give_cycle[OF edges this] obtain cycle where
    first: "firstCycle ?g (map fst ?g) ([], []) = Some cycle" by blast
  then have result: "detectCircularCoRuns (JArr tasks) (JArr rules) = [circular_corun cycle]"
    using nonempty by (simp add: detectCircularCoRuns_def rules graph)
  have "linked_in_pairs ?g"
    by (intro foldl_addCoRunRule_linked_in_pairs initial_graph_linked_in_pairs)
  then obtain t k where sym: "symmetric_graph ?g" and r: "ranked ?g t k"
    by (auto simp: linked_in_pairs_def)
  from firstCycle_pair_cycle[OF sym r first] obtain x y where
    xy: "y \<in> set (neighbors ?g x)" and c: "cycle = (if x = y then [x, x] else [x, y, x])"
    by (auto simp: pair_cycle_def)
  have "neighbors ([] :: jsval graph) x = []" by (simp add: neighbors_def)
  then have empty: "neighbors ?initial x = []"
    by (simp add: neighbors_initial_graph)
  from foldl_addCoRunRule_edges[OF xy] empty obtain r' ts' where
    r': "r' \<in> set ?coRunRules" and ts': "get_prop r' ''tasks'' = Inr (JArr ts')"
    and pair: "(x, y) \<in> set (pairs_of ts') \<or> (y, x) \<in> set (pairs_of ts')"
    and hx: "graph_has ?initial x" and hy: "graph_has ?initial y"
    by auto
  from ts' have "field_value r' ''tasks'' = JArr ts'" by (simp add: field_value_def)
  with r' pair have "co_run_pair rules x y"
    unfolding co_run_pair_def list_ex_iff by (intro bexI[of _ r']) auto
  moreover from hx hy keys0 have "x \<in> set ?ids" "y \<in> set ?ids"
    by (auto simp: graph_has_def map_has_def)
  ultimately show ?thesis using result c by blast
qed

theorem corun_pair_reported_circular_witness:
  "is_record (JObj [(''TaskID'', JStr ''T1'')]) \<and> is_record (JObj [(''TaskID'', JStr ''T2'')])
   \<and> is_record single_pair_rule
   \<and> field_value single_pair_rule ''type'' = JStr ''coRun''
   \<and> field_value single_pair_rule ''tasks'' = JArr [JStr ''T1'', JStr ''T2'']
   \<and> JStr ''T1'' \<noteq> JStr ''T2'' \<and> is_prim (JStr ''T1'') \<and> is_prim (JStr ''T2'')
   \<and> map (\<lambda>t. field_value t ''TaskID'') [JObj [(''TaskID'', JStr ''T1'')], JObj [(''TaskID'', JStr ''T2'')]]
        = [JStr ''T1'', JStr ''T2'']
   \<and> (\<exists>x y. detectCircularCoRuns
          (JArr [JObj [(''TaskID'', JStr ''T1'')], JObj [(''TaskID'', JStr ''T2'')]])
          (JArr [single_pair_rule]) = [circular_corun (if x = y then [x, x] else [x, y, x])]
        \<and> co_run_pair [single_pair_rule] x y
        \<and> x \<in> set [JStr ''T1'', JStr ''T2''] \<and> y \<in> set [JStr ''T1'', JStr ''T2''])"
proof -
  let ?tasks = "[JObj [(''TaskID'', JStr ''T1'')], JObj [(''TaskID'', JStr ''T2'')]]"
  have h1: "\<forall>t \<in> set ?tasks. is_record t" by (simp add: is_record_def)
  have h2: "\<forall>r \<in> set [single_pair_rule]. is_record r"
    by (simp add: is_record_def single_pair_rule_def)
  have h3: "single_pair_rule \<in> set [single_pair_rule]" by simp
  have h4: "field_value single_pair_rule ''type'' = JStr ''coRun''"
    by (simp add: field_value_def single_pair_rule_def)
  have h5: "field_value single_pair_rule ''tasks'' = JArr [JStr ''T1'', JStr ''T2'']"
    by (simp add: field_value_def single_pair_rule_def)
  have h6: "JStr ''T1'' \<in> set [JStr ''T1'', JStr ''T2'']"
    and h7: "JStr ''T2'' \<in> set [JStr ''T1'', JStr ''T2'']"
    and h8: "JStr ''T1'' \<noteq> JStr ''T2''"
    and h9: "is_prim (JStr ''T1'')" and h10: "is_prim (JStr ''T2'')" by simp_all
  have ids: "map (\<lambda>t. field_value t ''TaskID'') ?tasks = [JStr ''T1'', JStr ''T2'']"
    by (simp add: field_value_def)
  have h11: "JStr ''T1'' \<in> set (map (\<lambda>t. field_value t ''TaskID'') ?tasks)"
    and h12: "JStr ''T2'' \<in> set (map (\<lambda>t. field_value t ''TaskID'') ?tasks)"
    unfolding ids by simp_all
  note inst = corun_pair_reported_circular[OF h1 h2 h3 h4 h5 h6 h7 h8 h9 h10 h11 h12]
  have "\<exists>x y. detectCircularCoRuns (JArr ?tasks) (JArr [single_pair_rule])
              = [circular_corun (if x = y then [x, x] else [x, y, x])]
          \<and> co_run_pair [single_pair_rule] x y
          \<and> x \<in> set [JStr ''T1'', JStr ''T2''] \<and> y \<in> set [JStr ''T1'', JStr ''T2'']"
    using inst unfolding ids .
  then show ?thesis using h1 h2 h4 h5 ids by simp
qed

text \<open>The cycle is not always one of two nodes. A rule with the tasks \<open>T1, T1, T2\<close>
  names two different existing ids, and its first pair joins \<open>T1\<close> to itself: the cycle
  reported is \<open>T1, T1\<close>.\<close>

theorem repeated_task_gives_self_loop:
  "field_value repeated_task_rule ''type'' = JStr ''coRun''
   \<and> field_value repeated_task_rule ''tasks'' = JArr [JStr ''T1'', JStr ''T1'', JStr ''T2'']
   \<and> detectCircularCoRuns
        (JArr [JObj [(''TaskID'', JStr ''T1'')], JObj [(''TaskID'', JStr ''T2'')]])
        (JArr [repeated_task_rule])
       = [circular_corun [JStr ''T1'', JStr ''T1'']]
   \<and> remdups [JStr ''T1'', JStr ''T1''] = [JStr ''T1'']"
  by code_simp


section \<open>Worker overload\<close>

text \<open>
  C5. A worker with one available slot and a maximal load of 3 has fewer slots than load.
  \<open>validateWorkers\<close> reports it as \<open>WorkerOverload\<close>; \<open>validateWorkerOverload\<close>
  compares the other way round (\<open>availableSlots.length > maxLoad\<close>), reports nothing for
  it, and warns about the worker with three slots and a maximal load of 1 instead.
\<close>

theorem overload_comparison_reversed:
  "validateWorkerOverload rt (JArr [worker_with [1] 3]) = Inr []
   \<and> validateWorkerOverload rt (JArr [worker_with [1, 2, 3] 1])
     = Inr [\<lparr> fid = ''worker_overload_W1'', ftype = ''worker_overload'', severity = ''warning'',
              entity = ''workers'', field = Some ''MaxLoadPerPhase'', recordId = Some (JStr ''W1''),
              row = Some 1, message = [JStr ''W1'', JNum 3, JNum 1], suggestedFix = [JNum 3],
              affectedRecords = None \<rparr>]
   \<and> validateWorkers rt [worker_with [1] 3]
     = Inr [\<lparr> vrow = 1, vfield = ''MaxLoadPerPhase'', vmessage = [], vtype = ''WorkerOverload'',
              vseverity = ''medium'' \<rparr>]
   \<and> validateWorkers rt [worker_with [1, 2, 3] 1] = Inr []"
  by code_simp

section \<open>Required fields\<close>

lemma validateRequiredFields_record:
  assumes "is_record r"
  shows "\<exists>missing. validateRequiredFields r fs k = Inr missing
           \<and> (\<forall>f \<in> set fs. \<not> truthy (field_value r f) \<longrightarrow>
                 verr k f [JStr f] ''MissingField'' \<in> set missing)"
  unfolding validateRequiredFields_def
  by (induction fs) (auto simp: get_prop_record[OF assms])

lemma workerChecks_record:
  assumes "is_record w"
  shows "\<exists>found. workerChecks rt ids k w = Inr found
           \<and> (\<not> truthy (field_value w ''MaxLoadPerPhase'') \<longrightarrow>
                 verr k ''MaxLoadPerPhase'' [JStr ''MaxLoadPerPhase''] ''MissingField'' \<in> set found)"
proof -
  from validateRequiredFields_record[OF assms, of "requiredFields ''workers''" k]
  obtain missing where m: "validateRequiredFields w (requiredFields ''workers'') k = Inr missing"
    and mm: "\<forall>f \<in> set (requiredFields ''workers''). \<not> truthy (field_value w f) \<longrightarrow>
                 verr k f [JStr f] ''MissingField'' \<in> set missing" by blast
  have "''MaxLoadPerPhase'' \<in> set (requiredFields ''workers'')" by (simp add: requiredFields_def)
  with mm have "\<not> truthy (field_value w ''MaxLoadPerPhase'') \<longrightarrow>
                 verr k ''MaxLoadPerPhase'' [JStr ''MaxLoadPerPhase''] ''MissingField'' \<in> set missing"
    by blast
  then show ?thesis
    unfolding workerChecks_def by (simp add: m get_prop_record[OF assms])
qed

lemma workersLoop_record:
  assumes "\<forall>w \<in> set ws. is_record w"
  shows "\<exists>found. workersLoop rt ids k ws = Inr found
           \<and> (\<forall>i < length ws. \<not> truthy (field_value (ws ! i) ''MaxLoadPerPhase'') \<longrightarrow>
                 verr (k + i + 1) ''MaxLoadPerPhase'' [JStr ''MaxLoadPerPhase''] ''MissingField''
                   \<in> set found)"
  using assms
proof (induction ws arbitrary: ids k)
  case Nil
  then show ?case by simp
next
  case (Cons w ws)
  then have rw: "is_record w" and rws: "\<forall>w \<in> set ws. is_record w" by auto
  from workerChecks_record[OF rw, of rt ids "k + 1"] obtain f1 where
    f1: "workerChecks rt ids (k + 1) w = Inr f1"
    and m1: "\<not> truthy (field_value w ''MaxLoadPerPhase'') \<longrightarrow>
                 verr (k + 1) ''MaxLoadPerPhase'' [JStr ''MaxLoadPerPhase''] ''MissingField'' \<in> set f1"
    by blast
  from Cons.IH[OF rws, of "remember (field_value w ''WorkerID'') ids" "k + 1"] obtain f2 where
    f2: "workersLoop rt (remember (field_value w ''WorkerID'') ids) (k + 1) ws = Inr f2"
    and m2: "\<forall>i < length ws. \<not> truthy (field_value (ws ! i) ''MaxLoadPerPhase'') \<longrightarrow>
                 verr (k + 1 + i + 1) ''MaxLoadPerPhase'' [JStr ''MaxLoadPerPhase''] ''MissingField''
                   \<in> set f2"
    by blast
  have "workersLoop rt ids k (w # ws) = Inr (f1 @ f2)"
    using f1 f2 by (simp add: get_prop_record[OF rw])
  moreover have "\<forall>i < length (w # ws).
      \<not> truthy (field_value ((w # ws) ! i) ''MaxLoadPerPhase'') \<longrightarrow>
        verr (k + i + 1) ''MaxLoadPerPhase'' [JStr ''MaxLoadPerPhase''] ''MissingField''
          \<in> set (f1 @ f2)"
  proof (intro allI impI)
    fix i
    assume i: "i < length (w # ws)"
      and t: "\<not> truthy (field_value ((w # ws) ! i) ''MaxLoadPerPhase'')"
    show "verr (k + i + 1) ''MaxLoadPerPhase'' [JStr ''MaxLoadPerPhase''] ''MissingField''
            \<in> set (f1 @ f2)"
    proof (cases i)
      case 0
      with t m1 show ?thesis by simp
    next
      case (Suc j)
      with i t m2 show ?thesis by simp
    qed
  qed
  ultimately show ?case by blast
qed

text \<open>
  C10. A worker whose \<open>MaxLoadPerPhase\<close> is the number 0 is reported with a
  \<open>MissingField\<close> finding for \<open>MaxLoadPerPhase\<close>, at its row, by \<open>validateWorkers\<close>
  and so by \<open>validateRecords\<close> for the entity \<open>workers\<close> (called as the controllers
  call it, without a data store, and with no cached result): \<open>!record[field]\<close> is true
  of 0. The workers are records, so that no field access throws.
\<close>

theorem zero_max_load_reported_missing:
  assumes "\<forall>w \<in> set workers. is_record w"
    and "i < length workers"
    and "get_prop (workers ! i) ''MaxLoadPerPhase'' = Inr (JNum 0)"
  shows "\<exists>found. validateWorkers rt workers = Inr found
           \<and> validateRecords rt None crossEntity (JArr workers) (JStr ''workers'') JUndef = Some found
           \<and> \<lparr> vrow = i + 1, vfield = ''MaxLoadPerPhase'', vmessage = [JStr ''MaxLoadPerPhase''],
                vtype = ''MissingField'', vseverity = ''high'' \<rparr> \<in> set found"
proof -
  from workersLoop_record[OF assms(1), of rt "[]" 0] obtain found where
    f: "workersLoop rt [] 0 workers = Inr found"
    and m: "\<forall>i < length workers. \<not> truthy (field_value (workers ! i) ''MaxLoadPerPhase'') \<longrightarrow>
              verr (0 + i + 1) ''MaxLoadPerPhase'' [JStr ''MaxLoadPerPhase''] ''MissingField''
                \<in> set found"
    by blast
  from assms(3) have "field_value (workers ! i) ''MaxLoadPerPhase'' = JNum 0"
    by (simp add: field_value_def)
  with m assms(2)
  have "verr (i + 1) ''MaxLoadPerPhase'' [JStr ''MaxLoadPerPhase''] ''MissingField'' \<in> set found"
    by force
  then have "\<lparr> vrow = i + 1, vfield = ''MaxLoadPerPhase'', vmessage = [JStr ''MaxLoadPerPhase''],
                vtype = ''MissingField'', vseverity = ''high'' \<rparr> \<in> set found"
    by (simp add: verr_def severityMap_def)
  moreover have "validateRecords rt None crossEntity (JArr workers) (JStr ''workers'') JUndef = Some found"
    by (simp add: validateRecords_def validateWorkers_def f)
  ultimately show ?thesis by (auto simp: validateWorkers_def f)
qed

theorem zero_max_load_reported_missing_witness:
  "is_record (worker_with [1] 3) \<and> is_record (worker_with [1, 2] 0)
   \<and> (1::nat) < length [worker_with [1] 3, worker_with [1, 2] 0]
   \<and> get_prop ([worker_with [1] 3, worker_with [1, 2] 0] ! 1) ''MaxLoadPerPhase'' = Inr (JNum 0)
   \<and> (\<exists>found. validateWorkers example_runtime [worker_with [1] 3, worker_with [1, 2] 0] = Inr found
        \<and> validateRecords example_runtime None (\<lambda>c w t r. Some (Inr []))
            (JArr [worker_with [1] 3, worker_with [1, 2] 0]) (JStr ''workers'') JUndef = Some found
        \<and> \<lparr> vrow = 2, vfield = ''MaxLoadPerPhase'', vmessage = [JStr ''MaxLoadPerPhase''],
             vtype = ''MissingField'', vseverity = ''high'' \<rparr> \<in> set found)"
proof -
  have h1: "\<forall>w \<in> set [worker_with [1] 3, worker_with [1, 2] 0]. is_record w"
    by (simp add: worker_with_def is_record_def)
  have h2: "(1::nat) < length [worker_with [1] 3, worker_with [1, 2] 0]" by simp
  have h3: "get_prop ([worker_with [1] 3, worker_with [1, 2] 0] ! 1) ''MaxLoadPerPhase''
              = Inr (JNum 0)"
    by (simp add: worker_with_def)
  from zero_max_load_reported_missing[OF h1 h2 h3, of example_runtime "\<lambda>c w t r. Some (Inr [])"]
  show ?thesis using h1 h2 h3 by (simp add: numeral_2_eq_2)
qed


section \<open>Duplicate identifiers\<close>

lemma validateRequiredFields_types:
  "validateRequiredFields r fs k = Inr ms \<Longrightarrow> \<forall>e \<in> set ms. vtype e = ''MissingField''"
  unfolding validateRequiredFields_def
proof (induction fs arbitrary: ms)
  case Nil
  then show ?case by simp
next
  case (Cons f fs)
  then show ?case
    by (auto simp: bindE_case verr_def split: sum.splits if_splits)
qed

lemma duplicate_errors_append:
  "duplicate_errors v (xs @ ys) = duplicate_errors v xs @ duplicate_errors v ys"
  by (simp add: duplicate_errors_def)

lemma duplicate_errors_other:
  "\<forall>e \<in> set xs. vtype e \<noteq> ''DuplicateID'' \<Longrightarrow> duplicate_errors v xs = []"
  by (auto simp: duplicate_errors_def filter_empty_conv)

lemma clientChecks_duplicates:
  assumes "is_record c"
  shows "\<exists>found. clientChecks rt tids ids k c = Inr found
           \<and> duplicate_errors v found
               = (if truthy v \<and> field_value c ''ClientID'' = v \<and> set_has ids v
                  then [verr k ''ClientID'' [v] ''DuplicateID''] else [])"
proof -
  from validateRequiredFields_record[OF assms, of "requiredFields ''clients''" k]
  obtain missing where m: "validateRequiredFields c (requiredFields ''clients'') k = Inr missing"
    by blast
  from validateRequiredFields_types[OF m] have m0: "duplicate_errors v missing = []"
    by (intro duplicate_errors_other) auto
  have p0: "duplicate_errors v (case field_value c ''PriorityLevel'' of
            JUndef \<Rightarrow> []
          | JNum p \<Rightarrow> if 1 \<le> p \<and> p \<le> 5 then [] else [verr k ''PriorityLevel'' [] ''RangeError'']
          | _ \<Rightarrow> [verr k ''PriorityLevel'' [] ''TypeError'']) = []"
    by (intro duplicate_errors_other) (auto simp: verr_def split: jsval.splits)
  have r0: "duplicate_errors v (if truthy (field_value c ''RequestedTaskIDs'') then
            concat (map (\<lambda>taskId.
              if \<not> set_has tids (JStr taskId)
              then [verr k ''RequestedTaskIDs'' [JStr taskId] ''UnknownReference''] else [])
              (arrayifyCommaString (field_value c ''RequestedTaskIDs'')))
          else []) = []"
    by (intro duplicate_errors_other) (auto simp: verr_def split: if_splits)
  have a0: "duplicate_errors v (if truthy (field_value c ''AttributesJSON'') \<and> \<not> isValidJSON rt (field_value c ''AttributesJSON'')
          then [verr k ''AttributesJSON'' [] ''TypeError''] else []) = []"
    by (intro duplicate_errors_other) (auto simp: verr_def)
  have d0: "duplicate_errors v (duplicateCheck ''ClientID'' k (field_value c ''ClientID'') ids)
      = (if truthy v \<and> field_value c ''ClientID'' = v \<and> set_has ids v
                  then [verr k ''ClientID'' [v] ''DuplicateID''] else [])"
    by (auto simp: duplicateCheck_def duplicate_errors_def verr_def)
  show ?thesis
    unfolding clientChecks_def
    by (simp add: m get_prop_record[OF assms] duplicate_errors_append m0 p0 r0 a0 d0 del: split_paired_Ex)
qed

text \<open>The rows flagged from row \<open>i + 1\<close> on, when the id has or has not been seen before.\<close>

lemma indexed_Cons_shift:
  "map (\<lambda>p. fst p + 1 + i) (filter (\<lambda>p. P (snd p)) (indexed (c # cs)))
     = (if P c then [i + 1] else []) @ map (\<lambda>p. fst p + 1 + Suc i) (filter (\<lambda>p. P (snd p)) (indexed cs))"
proof -
  have "indexed (c # cs) = (0, c) # map (\<lambda>p. (Suc (fst p), snd p)) (indexed cs)"
    unfolding indexed_def
    by (auto simp: upt_conv_Cons map_Suc_upt[symmetric] zip_map1 simp del: upt_Suc)
  then show ?thesis
    by (simp add: filter_map comp_def)
qed

lemma clientsLoop_duplicates:
  assumes "\<forall>c \<in> set clients. is_record c" and "truthy v" and "is_prim v"
  shows "\<exists>found. clientsLoop rt tids ids i clients = Inr found
           \<and> map vrow (duplicate_errors v found)
               = (let rows = map (\<lambda>p. fst p + 1 + i)
                               (filter (\<lambda>p. field_value (snd p) ''ClientID'' = v) (indexed clients))
                  in if set_has ids v then rows else tl rows)"
  using assms(1)
proof (induction clients arbitrary: ids i)
  case Nil
  then show ?case by (simp add: duplicate_errors_def indexed_def)
next
  case (Cons c cs)
  then have rc: "is_record c" and rcs: "\<forall>c \<in> set cs. is_record c" by auto
  let ?cid = "field_value c ''ClientID''"
  from clientChecks_duplicates[OF rc, of rt tids ids "i + 1" v] obtain f1 where
    f1: "clientChecks rt tids ids (i + 1) c = Inr f1"
    and d1: "duplicate_errors v f1
               = (if truthy v \<and> ?cid = v \<and> set_has ids v
                  then [verr (i + 1) ''ClientID'' [v] ''DuplicateID''] else [])" by blast
  from Cons.IH[OF rcs, of "remember ?cid ids" "i + 1"] obtain f2 where
    f2: "clientsLoop rt tids (remember ?cid ids) (i + 1) cs = Inr f2"
    and d2: "map vrow (duplicate_errors v f2)
               = (let rows = map (\<lambda>p. fst p + 1 + (i + 1))
                               (filter (\<lambda>p. field_value (snd p) ''ClientID'' = v) (indexed cs))
                  in if set_has (remember ?cid ids) v then rows else tl rows)" by blast
  have loop: "clientsLoop rt tids ids i (c # cs) = Inr (f1 @ f2)"
    using f1 f2 by (simp add: get_prop_record[OF rc])
  have seen: "set_has (remember ?cid ids) v \<longleftrightarrow> set_has ids v \<or> ?cid = v"
    using assms(2,3) by (auto simp: remember_def set_add_def set_has_def)
  have "map vrow (duplicate_errors v (f1 @ f2))
      = (let rows = map (\<lambda>p. fst p + 1 + i)
                               (filter (\<lambda>p. field_value (snd p) ''ClientID'' = v) (indexed (c # cs)))
                  in if set_has ids v then rows else tl rows)"
    unfolding duplicate_errors_append map_append d1 d2 Let_def
      indexed_Cons_shift[of i "\<lambda>r. field_value r ''ClientID'' = v" c cs] seen
    using assms(2) by (auto simp: verr_def)
  with loop show ?case by blast
qed


lemma scanIds_counts:
  assumes "\<forall>r \<in> set rs. is_record r" and "truthy v" and "is_prim v"
  shows "(case scanIds idField rs (seen, dups) of
            Inl e \<Rightarrow> False
          | Inr (seen', dups') \<Rightarrow>
              length (filter (\<lambda>d. d = v) dups')
                = expected_duplicates v (length (filter (\<lambda>r. field_value r idField = v) rs)) seen dups)"
  using assms(1)
proof (induction rs arbitrary: seen dups)
  case Nil
  then show ?case by (auto simp: expected_duplicates_def filter_empty_conv)
next
  case (Cons r rs)
  then have rr: "is_record r" and rrs: "\<forall>r \<in> set rs. is_record r" by auto
  let ?id = "field_value r idField"
  let ?k = "length (filter (\<lambda>r. field_value r idField = v) rs)"
  let ?k' = "length (filter (\<lambda>r. field_value r idField = v) (r # rs))"
  show ?case
  proof (cases "truthy ?id")
    case False
    then have ne: "?id \<noteq> v" using assms(2) by auto
    have step: "scanIds idField (r # rs) (seen, dups) = scanIds idField rs (seen, dups)"
      using False by (simp add: get_prop_record[OF rr])
    have same: "expected_duplicates v ?k' seen dups = expected_duplicates v ?k seen dups"
      using ne by simp
    show ?thesis unfolding step same by (rule Cons.IH[OF rrs])
  next
    case True
    show ?thesis
    proof (cases "set_has seen ?id")
      case seen: True
      have step: "scanIds idField (r # rs) (seen, dups) = scanIds idField rs (seen, set_add dups ?id)"
        using True seen by (simp add: get_prop_record[OF rr])
      have same: "expected_duplicates v ?k' seen dups = expected_duplicates v ?k seen (set_add dups ?id)"
      proof (cases "?id = v")
        case eq: True
        then have "v \<in> set seen" using seen by (simp add: set_has_def)
        then show ?thesis using eq assms(3)
          by (auto simp: expected_duplicates_def set_add_def set_has_def filter_empty_conv)
      next
        case False
        then show ?thesis
          by (auto simp: expected_duplicates_def set_add_def)
      qed
      show ?thesis unfolding step same by (rule Cons.IH[OF rrs])
    next
      case unseen: False
      have step: "scanIds idField (r # rs) (seen, dups) = scanIds idField rs (seen @ [?id], dups)"
        using True unseen by (simp add: get_prop_record[OF rr])
      have same: "expected_duplicates v ?k' seen dups = expected_duplicates v ?k (seen @ [?id]) dups"
      proof (cases "?id = v")
        case eq: True
        then have "v \<notin> set seen" using unseen assms(3) by (simp add: set_has_def)
        then show ?thesis using eq
          by (auto simp: expected_duplicates_def)
      next
        case False
        then show ?thesis
          by (auto simp: expected_duplicates_def)
      qed
      show ?thesis unfolding step same by (rule Cons.IH[OF rrs])
    qed
  qed
qed

lemma length_rows_with_id:
  "length (rows_with_id idField v records)
     = length (filter (\<lambda>r. field_value r idField = v) records)"
proof -
  have "map snd (filter (\<lambda>p. field_value (snd p) idField = v) (indexed records))
      = filter (\<lambda>r. field_value r idField = v) (map snd (indexed records))"
    by (simp add: filter_map comp_def)
  moreover have "map snd (indexed records) = records" by (simp add: indexed_def)
  ultimately have "length (filter (\<lambda>p. field_value (snd p) idField = v) (indexed records))
      = length (filter (\<lambda>r. field_value r idField = v) records)"
    by (metis length_map)
  then show ?thesis by (simp add: rows_with_id_def)
qed

lemma distinct_rows_with_id: "distinct (rows_with_id idField v records)"
proof -
  have "distinct (map fst (indexed records))" by (simp add: indexed_def)
  then have "distinct (map fst (filter (\<lambda>p. field_value (snd p) idField = v) (indexed records)))"
    by (rule distinct_map_filter)
  moreover have "distinct (map Suc ys)" if "distinct ys" for ys :: "nat list"
    using that by (simp add: distinct_map)
  ultimately have "distinct (map Suc (map fst (filter (\<lambda>p. field_value (snd p) idField = v)
      (indexed records))))"
    by blast
  then show ?thesis by (simp add: rows_with_id_def comp_def)
qed

text \<open>A \<open>DuplicateID\<close> finding of \<open>validateClients\<close> sits at the row of the record that
  raised it, and the id of that record passed the guard \<open>if (client.ClientID)\<close> and was
  found in the \<open>Set\<close>.\<close>

lemma indexed_mem: "(n, x) \<in> set (indexed xs) \<longleftrightarrow> n < length xs \<and> x = xs ! n"
proof
  assume "(n, x) \<in> set (indexed xs)"
  then show "n < length xs \<and> x = xs ! n" by (auto simp: indexed_def set_zip)
next
  assume a: "n < length xs \<and> x = xs ! n"
  then have "n = [0..<length xs] ! n \<and> x = xs ! n \<and> n < length xs" by simp
  then show "(n, x) \<in> set (indexed xs)" unfolding indexed_def set_zip by force
qed

lemma rows_with_id_mem:
  "r \<in> set (rows_with_id idField v records)
     \<longleftrightarrow> 1 \<le> r \<and> r \<le> length records \<and> field_value (records ! (r - 1)) idField = v"
proof
  assume "r \<in> set (rows_with_id idField v records)"
  then obtain n x where "(n, x) \<in> set (indexed records)" "field_value x idField = v" "r = n + 1"
    by (auto simp: rows_with_id_def)
  then show "1 \<le> r \<and> r \<le> length records \<and> field_value (records ! (r - 1)) idField = v"
    by (auto simp: indexed_mem)
next
  assume a: "1 \<le> r \<and> r \<le> length records \<and> field_value (records ! (r - 1)) idField = v"
  then have "r - 1 < length records" by auto
  then have "(r - 1, records ! (r - 1)) \<in> set (indexed records)" by (simp add: indexed_mem)
  with a have "(r - 1) + 1 \<in> set (rows_with_id idField v records)"
    unfolding rows_with_id_def by force
  with a show "r \<in> set (rows_with_id idField v records)" by simp
qed

lemma clientChecks_duplicate_shape:
  assumes "is_record c" and "clientChecks rt tids ids k c = Inr found"
    and "e \<in> set found" and "vtype e = ''DuplicateID''"
  shows "vrow e = k \<and> vmessage e = [field_value c ''ClientID'']
       \<and> truthy (field_value c ''ClientID'') \<and> is_prim (field_value c ''ClientID'')"
proof -
  define priority where "priority = (case field_value c ''PriorityLevel'' of
            JUndef \<Rightarrow> []
          | JNum p \<Rightarrow> if 1 \<le> p \<and> p \<le> 5 then [] else [verr k ''PriorityLevel'' [] ''RangeError'']
          | _ \<Rightarrow> [verr k ''PriorityLevel'' [] ''TypeError''])"
  define requested where "requested = (if truthy (field_value c ''RequestedTaskIDs'') then
            concat (map (\<lambda>taskId.
              if \<not> set_has tids (JStr taskId)
              then [verr k ''RequestedTaskIDs'' [JStr taskId] ''UnknownReference''] else [])
              (arrayifyCommaString (field_value c ''RequestedTaskIDs'')))
          else [])"
  define attributes where "attributes =
      (if truthy (field_value c ''AttributesJSON'') \<and> \<not> isValidJSON rt (field_value c ''AttributesJSON'')
          then [verr k ''AttributesJSON'' [] ''TypeError''] else [])"
  from validateRequiredFields_record[OF assms(1), of "requiredFields ''clients''" k]
  obtain missing where m: "validateRequiredFields c (requiredFields ''clients'') k = Inr missing"
    by blast
  from validateRequiredFields_types[OF m] have m0: "e \<notin> set missing"
    using assms(4) by auto
  have p0: "e \<notin> set priority"
    using assms(4) by (auto simp: priority_def verr_def split: jsval.splits if_splits)
  have r0: "e \<notin> set requested"
    using assms(4) by (auto simp: requested_def verr_def split: if_splits)
  have a0: "e \<notin> set attributes"
    using assms(4) by (auto simp: attributes_def verr_def split: if_splits)
  from assms(2) have "found = missing
       @ duplicateCheck ''ClientID'' k (field_value c ''ClientID'') ids
       @ priority @ requested @ attributes"
    unfolding clientChecks_def priority_def requested_def attributes_def
    by (simp add: m get_prop_record[OF assms(1)])
  with assms(3) m0 p0 r0 a0
  have "e \<in> set (duplicateCheck ''ClientID'' k (field_value c ''ClientID'') ids)"
    by simp
  then show ?thesis
    by (auto simp: duplicateCheck_def verr_def set_has_def split: if_splits)
qed

lemma clientsLoop_duplicate_shape:
  assumes "\<forall>c \<in> set clients. is_record c"
  shows "clientsLoop rt tids ids i clients = Inr found \<Longrightarrow> e \<in> set found
     \<Longrightarrow> vtype e = ''DuplicateID''
     \<Longrightarrow> i < vrow e \<and> vrow e \<le> i + length clients
       \<and> vmessage e = [field_value (clients ! (vrow e - i - 1)) ''ClientID'']
       \<and> truthy (field_value (clients ! (vrow e - i - 1)) ''ClientID'')
       \<and> is_prim (field_value (clients ! (vrow e - i - 1)) ''ClientID'')"
  using assms
proof (induction clients arbitrary: ids i found)
  case Nil
  then show ?case by simp
next
  case (Cons c cs)
  then have rc: "is_record c" and rcs: "\<forall>c \<in> set cs. is_record c" by auto
  from Cons.prems(1) obtain f1 f2 where
    f1: "clientChecks rt tids ids (i + 1) c = Inr f1"
    and f2: "clientsLoop rt tids (remember (field_value c ''ClientID'') ids) (i + 1) cs = Inr f2"
    and found: "found = f1 @ f2"
    by (auto simp: get_prop_record[OF rc] bindE_case split: sum.splits)
  show ?case
  proof (cases "e \<in> set f1")
    case True
    from clientChecks_duplicate_shape[OF rc f1 True Cons.prems(3)] show ?thesis by simp
  next
    case False
    with Cons.prems(2) found have "e \<in> set f2" by simp
    from Cons.IH[OF f2 this Cons.prems(3) rcs]
    have ih: "i + 1 < vrow e" "vrow e \<le> i + 1 + length cs"
      "vmessage e = [field_value (cs ! (vrow e - (i + 1) - 1)) ''ClientID'']"
      "truthy (field_value (cs ! (vrow e - (i + 1) - 1)) ''ClientID'')"
      "is_prim (field_value (cs ! (vrow e - (i + 1) - 1)) ''ClientID'')" by auto
    have "(c # cs) ! (vrow e - i - 1) = cs ! (vrow e - (i + 1) - 1)"
      using ih(1) by (simp add: nth_Cons')
    with ih show ?thesis by simp
  qed
qed

text \<open>
  C4, as the code has it. \<open>validateClients\<close> pushes its \<open>DuplicateID\<close> findings inside
  the guard \<open>if (client.ClientID)\<close>. Let the \<open>ClientID\<close> value \<open>v\<close> occur in the rows
  \<open>rows_with_id ''ClientID'' v clients\<close>. If \<open>v\<close> passes the guard (it is truthy: not 0,
  not the empty string, not \<open>null\<close>, \<open>undefined\<close> or \<open>false\<close>) and is a primitive
  value, there is exactly one \<open>DuplicateID\<close> finding at the row of each occurrence but
  the first: \<open>k - 1\<close> findings for \<open>k\<close> occurrences. If \<open>v\<close> does not pass the guard,
  there is none at any of its rows. In both cases the findings at these rows were filled in
  with \<open>v\<close>, and the row of the first occurrence carries no \<open>DuplicateID\<close> finding at
  all. The clients and tasks are records.
\<close>

theorem duplicate_ids_flagged_from_second:
  assumes "\<forall>c \<in> set clients. is_record c"
    and "\<forall>t \<in> set tasks. is_record t"
  shows "\<exists>found. validateClients rt clients (JArr tasks) = Inr found
     \<and> (truthy v \<and> is_prim v \<longrightarrow>
          map vrow (duplicate_findings_at (rows_with_id ''ClientID'' v clients) found)
            = tl (rows_with_id ''ClientID'' v clients)
          \<and> length (duplicate_findings_at (rows_with_id ''ClientID'' v clients) found)
            = length (rows_with_id ''ClientID'' v clients) - 1)
     \<and> (\<not> truthy v \<longrightarrow> duplicate_findings_at (rows_with_id ''ClientID'' v clients) found = [])
     \<and> (\<forall>e \<in> set (duplicate_findings_at (rows_with_id ''ClientID'' v clients) found).
          vmessage e = [v])
     \<and> (rows_with_id ''ClientID'' v clients \<noteq> [] \<longrightarrow>
          hd (rows_with_id ''ClientID'' v clients)
            \<notin> set (map vrow (filter (\<lambda>e. vtype e = ''DuplicateID'') found)))"
proof -
  let ?rows = "rows_with_id ''ClientID'' v clients"
  let ?tids = "map (\<lambda>t. field_value t ''TaskID'') tasks"
  have "truthy (JStr ''x'')" and "is_prim (JStr ''x'')" by simp_all
  from clientsLoop_duplicates[OF assms(1) this, of rt ?tids "[]" 0]
  obtain found where f: "clientsLoop rt ?tids [] 0 clients = Inr found"
    by blast
  have v: "validateClients rt clients (JArr tasks) = Inr found"
    by (simp add: validateClients_def mapE_records[OF assms(2)] f)
  have shape: "vmessage e = [field_value (clients ! (vrow e - 1)) ''ClientID'']
      \<and> truthy (field_value (clients ! (vrow e - 1)) ''ClientID'')
      \<and> is_prim (field_value (clients ! (vrow e - 1)) ''ClientID'')
      \<and> 1 \<le> vrow e \<and> vrow e \<le> length clients"
    if "e \<in> set found" and "vtype e = ''DuplicateID''" for e
    using clientsLoop_duplicate_shape[OF assms(1) f that] by auto
  have at: "vrow e \<in> set ?rows \<longleftrightarrow> vmessage e = [v]"
    if "e \<in> set found" and "vtype e = ''DuplicateID''" for e
    using shape[OF that] by (simp add: rows_with_id_mem)
  have same: "duplicate_findings_at ?rows found = duplicate_errors v found"
    unfolding duplicate_findings_at_def duplicate_errors_def
    using at by (intro filter_cong) auto
  have names: "\<forall>e \<in> set (duplicate_findings_at ?rows found). vmessage e = [v]"
    unfolding same by (simp add: duplicate_errors_def)
  have only: "truthy v \<and> is_prim v" if "e \<in> set (duplicate_findings_at ?rows found)" for e
  proof -
    from that have e: "e \<in> set found" "vtype e = ''DuplicateID''" "vrow e \<in> set ?rows"
      by (auto simp: duplicate_findings_at_def)
    from at[OF e(1,2)] e(3) shape[OF e(1,2)] show ?thesis by simp
  qed
  have falsy: "duplicate_findings_at ?rows found = []" if "\<not> truthy v"
  proof (cases "duplicate_findings_at ?rows found")
    case Nil
    then show ?thesis .
  next
    case (Cons e es)
    then have "e \<in> set (duplicate_findings_at ?rows found)" by simp
    from only[OF this] that show ?thesis by simp
  qed
  have flagged: "map vrow (duplicate_findings_at ?rows found) = tl ?rows" if "truthy v" "is_prim v"
  proof -
    from clientsLoop_duplicates[OF assms(1) that, of rt ?tids "[]" 0] obtain found' where
      "clientsLoop rt ?tids [] 0 clients = Inr found'"
      and "map vrow (duplicate_errors v found') = tl ?rows"
      by (auto simp: rows_with_id_def set_has_def Let_def)
    with f show ?thesis by (simp add: same)
  qed
  have first: "hd ?rows \<notin> set (map vrow (filter (\<lambda>e. vtype e = ''DuplicateID'') found))"
    if ne: "?rows \<noteq> []"
  proof
    assume "hd ?rows \<in> set (map vrow (filter (\<lambda>e. vtype e = ''DuplicateID'') found))"
    then obtain e where e: "e \<in> set found" "vtype e = ''DuplicateID''" "vrow e = hd ?rows"
      by auto
    from ne have hdin: "hd ?rows \<in> set ?rows" by simp
    with e have mem: "e \<in> set (duplicate_findings_at ?rows found)"
      by (simp add: duplicate_findings_at_def)
    from flagged only[OF mem] have "map vrow (duplicate_findings_at ?rows found) = tl ?rows"
      by simp
    moreover have "vrow e \<in> set (map vrow (duplicate_findings_at ?rows found))"
      using mem by simp
    ultimately have "hd ?rows \<in> set (tl ?rows)" using e(3) by simp
    moreover from ne distinct_rows_with_id[of "''ClientID''" v clients]
    have "hd ?rows \<notin> set (tl ?rows)" by (cases ?rows) auto
    ultimately show False by simp
  qed
  have count: "length (duplicate_findings_at ?rows found) = length ?rows - 1"
    if "truthy v" "is_prim v"
  proof -
    have "length (map vrow (duplicate_findings_at ?rows found)) = length (tl ?rows)"
      using flagged[OF that] by simp
    then show ?thesis by simp
  qed
  show ?thesis
  proof (intro exI[of _ found] conjI impI)
    show "validateClients rt clients (JArr tasks) = Inr found" by (rule v)
    show "map vrow (duplicate_findings_at ?rows found) = tl ?rows" if "truthy v \<and> is_prim v"
      using that flagged by blast
    show "length (duplicate_findings_at ?rows found) = length ?rows - 1" if "truthy v \<and> is_prim v"
      using that count by blast
    show "duplicate_findings_at ?rows found = []" if "\<not> truthy v"
      using that by (rule falsy)
    show "\<forall>e \<in> set (duplicate_findings_at ?rows found). vmessage e = [v]" by (rule names)
    show "hd ?rows \<notin> set (map vrow (filter (\<lambda>e. vtype e = ''DuplicateID'') found))"
      if "?rows \<noteq> []"
      using that by (rule first)
  qed
qed

theorem duplicate_ids_flagged_from_second_witness:
  "is_record (client_with (JStr ''C1'')) \<and> is_record (client_with (JStr ''C2''))
   \<and> truthy (JStr ''C1'') \<and> is_prim (JStr ''C1'')
   \<and> rows_with_id ''ClientID'' (JStr ''C1'')
        [client_with (JStr ''C1''), client_with (JStr ''C2''), client_with (JStr ''C1''),
         client_with (JStr ''C1'')] = [1, 3, 4]
   \<and> (\<exists>found. validateClients example_runtime
          [client_with (JStr ''C1''), client_with (JStr ''C2''), client_with (JStr ''C1''),
           client_with (JStr ''C1'')] (JArr []) = Inr found
        \<and> map vrow (duplicate_findings_at [1, 3, 4] found) = [3, 4]
        \<and> length (duplicate_findings_at [1, 3, 4] found) = 2
        \<and> 1 \<notin> set (map vrow (filter (\<lambda>e. vtype e = ''DuplicateID'') found)))"
proof -
  let ?cs = "[client_with (JStr ''C1''), client_with (JStr ''C2''), client_with (JStr ''C1''),
              client_with (JStr ''C1'')]"
  have h1: "\<forall>c \<in> set ?cs. is_record c" by (simp add: client_with_def is_record_def)
  have h2: "\<forall>t \<in> set ([] :: jsval list). is_record t" by simp
  have h3: "truthy (JStr ''C1'')" and h4: "is_prim (JStr ''C1'')" by simp_all
  have rows: "rows_with_id ''ClientID'' (JStr ''C1'') ?cs = [1, 3, 4]" by code_simp
  from duplicate_ids_flagged_from_second[OF h1 h2, of example_runtime "JStr ''C1''"]
  obtain found where
    "validateClients example_runtime ?cs (JArr []) = Inr found"
    "map vrow (duplicate_findings_at (rows_with_id ''ClientID'' (JStr ''C1'') ?cs) found)
       = tl (rows_with_id ''ClientID'' (JStr ''C1'') ?cs)"
    "length (duplicate_findings_at (rows_with_id ''ClientID'' (JStr ''C1'') ?cs) found)
       = length (rows_with_id ''ClientID'' (JStr ''C1'') ?cs) - 1"
    "hd (rows_with_id ''ClientID'' (JStr ''C1'') ?cs)
       \<notin> set (map vrow (filter (\<lambda>e. vtype e = ''DuplicateID'') found))"
    using h3 h4 unfolding rows by force
  then have "validateClients example_runtime ?cs (JArr []) = Inr found
      \<and> map vrow (duplicate_findings_at [1, 3, 4] found) = [3, 4]
      \<and> length (duplicate_findings_at [1, 3, 4] found) = 2
      \<and> 1 \<notin> set (map vrow (filter (\<lambda>e. vtype e = ''DuplicateID'') found))"
    unfolding rows by simp
  then have "\<exists>found. validateClients example_runtime ?cs (JArr []) = Inr found
      \<and> map vrow (duplicate_findings_at [1, 3, 4] found) = [3, 4]
      \<and> length (duplicate_findings_at [1, 3, 4] found) = 2
      \<and> 1 \<notin> set (map vrow (filter (\<lambda>e. vtype e = ''DuplicateID'') found))"
    by (rule exI)
  with h1 h3 h4 rows show ?thesis by simp
qed

text \<open>
  The claim as stated fails for an id that does not pass the guard. A \<open>ClientID\<close> of 0
  that occurs in two records is flagged in neither: both rows get a \<open>MissingField\<close>
  finding and no \<open>DuplicateID\<close> finding, where the claim counts one.
\<close>

theorem falsy_id_never_flagged:
  "rows_with_id ''ClientID'' (JNum 0) [client_with (JNum 0), client_with (JNum 0)] = [1, 2]
   \<and> validateClients example_runtime [client_with (JNum 0), client_with (JNum 0)] (JArr [])
       = Inr [verr 1 ''ClientID'' [JStr ''ClientID''] ''MissingField'',
              verr 2 ''ClientID'' [JStr ''ClientID''] ''MissingField'']
   \<and> duplicate_findings_at [1, 2]
        [verr 1 ''ClientID'' [JStr ''ClientID''] ''MissingField'',
         verr 2 ''ClientID'' [JStr ''ClientID''] ''MissingField''] = []
   \<and> filter (\<lambda>e. vtype e = ''DuplicateID'')
        [verr 1 ''ClientID'' [JStr ''ClientID''] ''MissingField'',
         verr 2 ''ClientID'' [JStr ''ClientID''] ''MissingField''] = []"
  by code_simp

text \<open>\<open>validateDuplicateIds\<close> of the enhanced service keeps the ids seen again in a
  \<open>Set\<close> and reports each of them once, however often it occurs.\<close>

lemma validateDuplicateIds_once_per_id:
  assumes "\<forall>c \<in> set clients. is_record c"
    and "truthy v" and "is_prim v"
    and "2 \<le> length (rows_with_id ''ClientID'' v clients)"
  shows "\<exists>found. validateDuplicateIds (JArr clients) ''clients'' ''ClientID'' = Inr found
            \<and> length (filter (\<lambda>f. recordId f = Some v) found) = 1"
proof -
  from scanIds_counts[OF assms(1,2,3), of "''ClientID''" "[]" "[]"] assms(4)
  obtain seen' dups' where
    s: "scanIds ''ClientID'' clients ([], []) = Inr (seen', dups')"
    and c: "length (filter (\<lambda>d. d = v) dups') = 1"
    by (auto simp: length_rows_with_id expected_duplicates_def split: sum.splits)
  have "length (filter (\<lambda>f. recordId f = Some v) (map (\<lambda>duplicateId.
           \<lparr> fid = ''duplicate_id_'' @ ''clients'' @ ''_'' @ js_toString duplicateId,
              ftype = ''duplicate_id'', severity = ''error'', entity = ''clients'',
              field = Some ''ClientID'', recordId = Some duplicateId, row = None,
              message = [JStr ''ClientID'', duplicateId, JStr ''clients''],
              suggestedFix = [JStr ''ClientID''], affectedRecords = None \<rparr>) dups')) = 1"
    using c by (simp add: filter_map comp_def)
  then show ?thesis
    by (simp add: validateDuplicateIds_def s)
qed


section \<open>The orchestrator\<close>

text \<open>
  The result of \<open>validateAllData\<close> holds \<open>summary.timestamp\<close>, which is
  \<open>new Date().toISOString()\<close> at the time of the call; the clock is the argument
  \<open>now\<close>. Two calls on the same inputs at different instants return different results,
  which differ in the timestamp only.
\<close>

lemma result_depends_on_clock_only_in_timestamp:
  "validateAllData rt later clientsData workersData tasksData rules
     = (validateAllData rt now clientsData workersData tasksData rules)
         \<lparr> summary := (summary (validateAllData rt now clientsData workersData tasksData rules))
             \<lparr> timestamp := later \<rparr> \<rparr>"
  by (auto simp: validateAllData_def Let_def aggregateResults_def systemErrorResult_def split: sum.splits)

lemma results_differ_in_timestamp:
  "validateAllData example_runtime ''2024-01-01T00:00:00.000Z'' (JArr []) (JArr []) (JArr []) (JArr [])
     \<noteq> validateAllData example_runtime ''2024-01-01T00:00:00.001Z'' (JArr []) (JArr []) (JArr []) (JArr [])"
  by code_simp

text \<open>An entity argument that is not an array makes a stage throw, at the latest
  \<open>validateDuplicateIds\<close>, and \<open>validateAllData\<close> returns the fixed result of its
  \<open>catch\<close>.\<close>

lemma validateDuplicateIds_not_array:
  "\<not> is_array d \<Longrightarrow> validateDuplicateIds d entityType idField = Inl TypeError"
  by (simp add: validateDuplicateIds_def elements_not_array)

lemma validateStructural_not_array:
  assumes "\<not> is_array c \<or> \<not> is_array w \<or> \<not> is_array t"
  shows "\<exists>e. validateStructural rt c w t = Inl e"
proof -
  have "validateDuplicateIds c ''clients'' ''ClientID'' = Inl TypeError
      \<or> validateDuplicateIds w ''workers'' ''WorkerID'' = Inl TypeError
      \<or> validateDuplicateIds t ''tasks'' ''TaskID'' = Inl TypeError"
    using assms validateDuplicateIds_not_array by blast
  then show ?thesis
    unfolding validateStructural_def
    by (auto simp: bindE_case split: sum.splits)
qed

lemma runStages_not_array:
  assumes "\<not> is_array c \<or> \<not> is_array w \<or> \<not> is_array t"
  shows "\<exists>e. runStages rt c w t r = Inl e"
  using validateStructural_not_array[OF assms, of rt]
  by (auto simp: runStages_def)

lemma validateAllData_not_array:
  assumes "\<not> is_array clientsData \<or> \<not> is_array workersData \<or> \<not> is_array tasksData"
  shows "validateAllData rt now clientsData workersData tasksData rules = systemErrorResult now"
proof -
  from runStages_not_array[OF assms] obtain e where
    "runStages rt clientsData workersData tasksData (if rules = JUndef then JArr [] else rules) = Inl e"
    by blast
  then show ?thesis by (simp add: validateAllData_def Let_def)
qed

section \<open>Ranges without an end\<close>

text \<open>The loop of \<open>parseRange\<close> returns when both ends are integers, and does not return
  when it counts up to \<open>Infinity\<close>.\<close>

lemma range_loop_bounded:
  "range_loop (Finite a) (Finite b) result = Some (result @ map Finite [a..b])"
proof (induction "nat (b - a + 1)" arbitrary: a result)
  case 0
  then have "b < a" by simp
  then show ?case by (subst range_loop.simps) simp
next
  case (Suc n)
  then have le: "a \<le> b" and n: "n = nat (b - (a + 1) + 1)" by auto
  have "[a..b] = a # [a + 1..b]" using le by (simp add: upto_rec1)
  with Suc.hyps(1)[OF n, of "result @ [Finite a]"] le show ?case
    by (subst range_loop.simps) simp
qed

lemma range_loop_returns_bounded:
  assumes "range_loop i e acc = Some r"
  shows "e \<noteq> Infinity"
proof (rule range_loop.raw_induct[where P = "\<lambda>i e acc r. e \<noteq> Infinity", OF _ assms])
  fix loop i e acc r
  assume ih: "\<And>i e acc r. loop i e acc = Some r \<Longrightarrow> e \<noteq> Infinity"
    and step: "(if number_le i e then loop (number_succ i) e (acc @ [i]) else Some acc) = Some r"
  show "e \<noteq> Infinity"
  proof
    assume "e = Infinity"
    with step have "loop (number_succ i) Infinity (acc @ [i]) = Some r" by simp
    from ih[OF this] show False by simp
  qed
qed

lemma range_loop_unbounded: "range_loop i Infinity result = None"
  using range_loop_returns_bounded[of i Infinity result]
  by (cases "range_loop i Infinity result") auto

text \<open>A range that ends at \<open>Infinity\<close>, whatever the runtime and whatever stands before
  and after the first two pieces.\<close>

lemma parseRange_unbounded:
  assumes "split_on CHR ''-'' s = a # b # rest"
    and "number_piece rt a = Some start" and "number_piece rt b = Some Infinity"
  shows "parseRange rt (JStr s) = None"
proof -
  have "CHR ''-'' \<in> set s"
  proof (rule ccontr)
    assume "CHR ''-'' \<notin> set s"
    then have "split_on CHR ''-'' s = [s]"
      by (induction s) auto
    with assms(1) show False by simp
  qed
  moreover have "s \<noteq> []" using assms(1) by auto
  ultimately show ?thesis
    using assms by (simp add: parseRange_def range_loop_unbounded)
qed

text \<open>
  C7. Both entry points run inside a \<open>try\<close>, and what a validator throws becomes a
  finding. But a call that does not return is not caught. A task whose \<open>PreferredPhases\<close>
  is the text \<open>1-Infinity\<close> passes the tests of \<open>parseRange\<close> (neither end is \<open>NaN\<close>,
  and the start is not above the end), and its loop pushes numbers without end:
  \<open>validateTasks\<close> and with it \<open>validateRecords\<close> for the entity \<open>tasks\<close> never return
  a result. With \<open>1-3\<close> in its place they return, with no finding.
\<close>

theorem unbounded_range_never_returns:
  "parseRange range_runtime (JStr ''1-3'') = Some (Some [Finite 1, Finite 2, Finite 3])
   \<and> validateRecords range_runtime None (\<lambda>c w t r. Some (Inr []))
        (JArr [task_with_phases ''1-3'']) (JStr ''tasks'') JUndef = Some []
   \<and> parseRange range_runtime (JStr ''1-Infinity'') = None
   \<and> validateTasks range_runtime [task_with_phases ''1-Infinity''] = None
   \<and> validateRecords range_runtime None (\<lambda>c w t r. Some (Inr []))
        (JArr [task_with_phases ''1-Infinity'']) (JStr ''tasks'') JUndef = None"
proof -
  have s3: "split_on CHR ''-'' ''1-3'' = [''1'', ''3'']" by code_simp
  have si: "split_on CHR ''-'' ''1-Infinity'' = [''1'', ''Infinity'']" by code_simp
  have p3: "parseRange range_runtime (JStr ''1-3'') = Some (Some [Finite 1, Finite 2, Finite 3])"
    by (simp add: parseRange_def s3 number_piece_def range_runtime_def range_loop_bounded upto_rec1)
  have "number_piece range_runtime ''1'' = Some (Finite 1)"
    and "number_piece range_runtime ''Infinity'' = Some Infinity"
    by (simp_all add: number_piece_def range_runtime_def)
  then have pinf: "parseRange range_runtime (JStr ''1-Infinity'') = None"
    by (rule parseRange_unbounded[OF si])
  have b3: "taskChecksBeforePhases [] (Suc 0) (task_with_phases ''1-3'') = Inr ([], JStr ''1-3'')"
    by code_simp
  have binf: "taskChecksBeforePhases [] (Suc 0) (task_with_phases ''1-Infinity'')
      = Inr ([], JStr ''1-Infinity'')"
    by code_simp
  have c3: "taskChecks range_runtime [] (Suc 0) (task_with_phases ''1-3'') = Some (Inr [])"
    by (simp add: taskChecks_def b3 p3)
  have cinf: "taskChecks range_runtime [] (Suc 0) (task_with_phases ''1-Infinity'') = None"
    by (simp add: taskChecks_def binf pinf)
  have ident: "get_prop (task_with_phases phases) ''TaskID'' = Inr (JStr ''T1'')" for phases
    by (simp add: task_with_phases_def)
  have t3: "validateTasks range_runtime [task_with_phases ''1-3''] = Some (Inr [])"
    by (simp add: validateTasks_def c3 ident)
  have tinf: "validateTasks range_runtime [task_with_phases ''1-Infinity''] = None"
    by (simp add: validateTasks_def cinf)
  have r3: "validateRecords range_runtime None (\<lambda>c w t r. Some (Inr []))
        (JArr [task_with_phases ''1-3'']) (JStr ''tasks'') JUndef = Some []"
    by (simp add: validateRecords_def t3)
  have rinf: "validateRecords range_runtime None (\<lambda>c w t r. Some (Inr []))
        (JArr [task_with_phases ''1-Infinity'']) (JStr ''tasks'') JUndef = None"
    by (simp add: validateRecords_def tinf)
  from p3 r3 pinf tinf rinf show ?thesis by simp
qed

section \<open>Cycles\<close>

text \<open>\<open>detectCycles\<close> returns a cycle exactly when the graph has one.\<close>

lemma edgesI: "v \<in> set (neighbors g u) \<Longrightarrow> (u, v) \<in> edges g"
  by (simp add: edges_def)

lemma edges_source_is_key:
  assumes "(u, v) \<in> edges g"
  shows "u \<in> fst ` set g"
proof (cases "map_of g u")
  case None
  with assms show ?thesis by (simp add: edges_def neighbors_def)
next
  case (Some ns)
  then have "(u, ns) \<in> set g" by (rule map_of_SomeD)
  then show ?thesis by force
qed

lemma cycle_through_key:
  assumes "(n, n) \<in> (edges g)\<^sup>+"
  shows "n \<in> fst ` set g"
proof -
  from assms obtain y where "(n, y) \<in> edges g" by (meson converse_tranclE)
  then show ?thesis by (rule edges_source_is_key)
qed

subsection \<open>A cycle that is reported is a cycle\<close>

lemma walk_reaches_last:
  assumes "successively (\<lambda>u v. (u, v) \<in> edges g) path" and "x \<in> set path"
  shows "(x, last path) \<in> (edges g)\<^sup>*"
  using assms
proof (induction path arbitrary: x)
  case Nil
  then show ?case by simp
next
  case (Cons y ys)
  show ?case
  proof (cases "ys = []")
    case True
    with Cons.prems show ?thesis by simp
  next
    case False
    with Cons.prems(1) have step: "(y, hd ys) \<in> edges g"
      and walk: "successively (\<lambda>u v. (u, v) \<in> edges g) ys"
      by (auto simp: successively_Cons)
    from False have "hd ys \<in> set ys" by simp
    from Cons.IH[OF walk this] have "(hd ys, last ys) \<in> (edges g)\<^sup>*" .
    with step have fromy: "(y, last ys) \<in> (edges g)\<^sup>*" by (rule converse_rtrancl_into_rtrancl)
    show ?thesis
    proof (cases "x = y")
      case True
      with fromy False show ?thesis by simp
    next
      case ne: False
      with Cons.prems(2) have "x \<in> set ys" by simp
      from Cons.IH[OF walk this] False show ?thesis by simp
    qed
  qed
qed

lemma dfs_some_cyclic:
  "dfs g n path st = (Some c, st') \<Longrightarrow>
     successively (\<lambda>u v. (u, v) \<in> edges g) path \<Longrightarrow> set (snd st) \<subseteq> set path \<Longrightarrow>
     (path \<noteq> [] \<longrightarrow> (last path, n) \<in> edges g) \<Longrightarrow> cyclic g"
  "dfs_each g ns path st = (Some c, st') \<Longrightarrow>
     successively (\<lambda>u v. (u, v) \<in> edges g) path \<Longrightarrow> set (snd st) \<subseteq> set path \<Longrightarrow>
     (path \<noteq> [] \<longrightarrow> (\<forall>y \<in> set ns. (last path, y) \<in> edges g)) \<Longrightarrow> cyclic g"
proof (induct g n path st and g ns path st arbitrary: c st' and c st' rule: dfs_dfs_each.induct)
  case (1 g node path visited recStack)
  show ?case
  proof (cases "node \<in> set recStack")
    case True
    with "1.prems"(3) have onPath: "node \<in> set path" by auto
    then have ne: "path \<noteq> []" by auto
    from walk_reaches_last[OF "1.prems"(2) onPath]
    have "(node, last path) \<in> (edges g)\<^sup>*" .
    moreover from "1.prems"(4) ne have "(last path, node) \<in> edges g" by simp
    ultimately have "(node, node) \<in> (edges g)\<^sup>+" by (rule rtrancl_into_trancl1)
    then show ?thesis by (auto simp: cyclic_def)
  next
    case notStack: False
    show ?thesis
    proof (cases "node \<in> set visited")
      case True
      with notStack "1.prems"(1) show ?thesis by (simp add: dfs.simps)
    next
      case False
      obtain r st1 where loop: "dfs_each g (neighbors g node) (path @ [node]) (node # visited, node # recStack) = (r, st1)"
        by (cases "dfs_each g (neighbors g node) (path @ [node]) (node # visited, node # recStack)")
      with "1.prems"(1) notStack False obtain c' where r: "r = Some c'"
        by (auto simp: dfs.simps split: option.splits prod.splits)
      from loop r have loopS: "dfs_each g (neighbors g node) (path @ [node]) (node # visited, node # recStack) = (Some c', st1)"
        by simp
      have w: "successively (\<lambda>u v. (u, v) \<in> edges g) (path @ [node])"
        using "1.prems"(2,4) by (cases "path = []") (auto simp: successively_append_iff)
      have s: "set (snd (node # visited, node # recStack)) \<subseteq> set (path @ [node])"
        using "1.prems"(3) by auto
      have e: "path @ [node] \<noteq> [] \<longrightarrow> (\<forall>y \<in> set (neighbors g node). (last (path @ [node]), y) \<in> edges g)"
        by (simp add: edges_def)
      from "1.hyps"[OF notStack False loopS w s e] show ?thesis .
    qed
  qed
next
  case (2 g path st)
  then show ?case by simp
next
  case (3 g n ns path st)
  obtain r st1 where first: "dfs g n path st = (r, st1)" by (cases "dfs g n path st")
  show ?case
  proof (cases r)
    case None
    with first "3.prems"(1) have rest: "dfs_each g ns path st1 = (Some c, st')" by simp
    from first None have firstN: "dfs g n path st = (None, st1)" by simp
    from dfs_none_facts(1)[OF firstN] "3.prems"(3) have s: "set (snd st1) \<subseteq> set path" by simp
    from "3.prems"(4) have e: "path \<noteq> [] \<longrightarrow> (\<forall>y \<in> set ns. (last path, y) \<in> edges g)" by simp
    from "3.hyps"(2)[OF first[symmetric] None rest "3.prems"(2) s e] show ?thesis .
  next
    case (Some c')
    with first have firstS: "dfs g n path st = (Some c', st1)" by simp
    from "3.prems"(4) have e: "path \<noteq> [] \<longrightarrow> (last path, n) \<in> edges g" by simp
    from "3.hyps"(1)[OF firstS "3.prems"(2,3) e] show ?thesis .
  qed
qed

subsection \<open>A search that reports nothing has seen that there is no cycle\<close>

lemma closed_reach:
  assumes "\<forall>x \<in> F. set (neighbors g x) \<subseteq> F" and "(y, z) \<in> (edges g)\<^sup>*" and "y \<in> F"
  shows "z \<in> F"
  using assms(2,3)
proof (induction rule: rtrancl_induct)
  case base
  then show ?case by simp
next
  case (step u v)
  with assms(1) show ?case by (auto simp: edges_def)
qed

lemma dfs_none_finished:
  "dfs g n path st = (None, st') \<Longrightarrow> finished_ok g st \<Longrightarrow> finished_ok g st'"
  "dfs_each g ns path st = (None, st') \<Longrightarrow> finished_ok g st \<Longrightarrow> finished_ok g st'"
proof (induct g n path st and g ns path st arbitrary: st' and st' rule: dfs_dfs_each.induct)
  case (1 g node path visited recStack)
  show ?case
  proof (cases "node \<in> set recStack")
    case True
    with "1.prems" show ?thesis by (simp add: dfs.simps)
  next
    case notStack: False
    show ?thesis
    proof (cases "node \<in> set visited")
      case True
      with notStack "1.prems" show ?thesis by (auto simp: dfs.simps)
    next
      case False
      obtain r st1 where loop: "dfs_each g (neighbors g node) (path @ [node]) (node # visited, node # recStack) = (r, st1)"
        by (cases "dfs_each g (neighbors g node) (path @ [node]) (node # visited, node # recStack)")
      with "1.prems"(1) notStack False have r: "r = None" and st': "st' = (fst st1, removeAll node (snd st1))"
        by (auto simp: dfs.simps split: option.splits prod.splits)
      from loop r have loopN: "dfs_each g (neighbors g node) (path @ [node]) (node # visited, node # recStack) = (None, st1)"
        by simp
      from dfs_none_facts(2)[OF loopN]
      have stack: "snd st1 = node # recStack"
        and marked: "set (node # visited) \<subseteq> set (fst st1)"
        and succs: "set (neighbors g node) \<subseteq> set (fst st1)"
        and off: "\<forall>y \<in> set (neighbors g node). y \<notin> set (node # recStack)"
        by auto
      let ?F1 = "set (fst st1) - set (node # recStack)"
      have same: "set (fst (node # visited, node # recStack)) - set (snd (node # visited, node # recStack))
          = set (fst (visited, recStack)) - set (snd (visited, recStack))"
        using False by auto
      have "finished_ok g (node # visited, node # recStack)"
        using "1.prems"(2) unfolding finished_ok_def same .
      from "1.hyps"[OF notStack False loopN this] stack
      have ok1: "\<forall>x \<in> ?F1. set (neighbors g x) \<subseteq> ?F1 \<and> (x, x) \<notin> (edges g)\<^sup>+"
        by (simp add: finished_ok_def)
      have nsucc: "set (neighbors g node) \<subseteq> ?F1" using succs off by auto
      have nocycle: "(node, node) \<notin> (edges g)\<^sup>+"
      proof
        assume "(node, node) \<in> (edges g)\<^sup>+"
        then obtain y where y: "(node, y) \<in> edges g" and reach: "(y, node) \<in> (edges g)\<^sup>*"
          by (meson tranclD)
        from y nsucc have "y \<in> ?F1" by (auto simp: edges_def)
        from closed_reach[OF _ reach this] ok1 have "node \<in> ?F1" by blast
        then show False by simp
      qed
      have F': "set (fst st') - set (snd st') = insert node ?F1"
        using st' stack marked notStack by auto
      show ?thesis
        unfolding finished_ok_def F' using ok1 nsucc nocycle by auto
    qed
  qed
next
  case (2 g path st)
  then show ?case by simp
next
  case (3 g n ns path st)
  obtain r st1 where first: "dfs g n path st = (r, st1)" by (cases "dfs g n path st")
  with "3.prems"(1) have r: "r = None" and rest: "dfs_each g ns path st1 = (None, st')"
    by (auto split: option.splits)
  from first r have firstN: "dfs g n path st = (None, st1)" by simp
  from "3.hyps"(2)[OF first[symmetric] r rest "3.hyps"(1)[OF firstN "3.prems"(2)]]
  show ?case .
qed

lemma detect_from_empty_acyclic:
  "detect_from g nodes st = [] \<Longrightarrow> finished_ok g st \<Longrightarrow> snd st = [] \<Longrightarrow>
     \<forall>x \<in> set nodes. (x, x) \<notin> (edges g)\<^sup>+"
proof (induction nodes arbitrary: st)
  case Nil
  then show ?case by simp
next
  case (Cons n nodes)
  show ?case
  proof (cases "n \<in> set (fst st)")
    case True
    with Cons.prems have "detect_from g nodes st = []" by simp
    from Cons.IH[OF this Cons.prems(2,3)] True Cons.prems(2,3) show ?thesis
      by (auto simp: finished_ok_def)
  next
    case False
    obtain r st1 where first: "dfs g n [] st = (r, st1)" by (cases "dfs g n [] st")
    with Cons.prems(1) False have r: "r = None" and rest: "detect_from g nodes st1 = []"
      by (auto split: option.splits)
    from first r have firstN: "dfs g n [] st = (None, st1)" by simp
    from dfs_none_facts(1)[OF firstN] Cons.prems(3)
    have s1: "snd st1 = []" and n1: "n \<in> set (fst st1)" by auto
    from dfs_none_finished(1)[OF firstN Cons.prems(2)] have ok1: "finished_ok g st1" .
    from Cons.IH[OF rest ok1 s1] ok1 s1 n1 show ?thesis
      by (auto simp: finished_ok_def)
  qed
qed

lemma detect_from_found_cyclic:
  "detect_from g nodes st \<noteq> [] \<Longrightarrow> snd st = [] \<Longrightarrow> cyclic g"
proof (induction nodes arbitrary: st)
  case Nil
  then show ?case by simp
next
  case (Cons n nodes)
  show ?case
  proof (cases "n \<in> set (fst st)")
    case True
    with Cons show ?thesis by simp
  next
    case False
    obtain r st1 where first: "dfs g n [] st = (r, st1)" by (cases "dfs g n [] st")
    show ?thesis
    proof (cases r)
      case None
      with first have firstN: "dfs g n [] st = (None, st1)" by simp
      from dfs_none_facts(1)[OF firstN] Cons.prems(2) have s1: "snd st1 = []" by simp
      from Cons.prems(1) False first None have "detect_from g nodes st1 \<noteq> []" by simp
      from Cons.IH[OF this s1] show ?thesis .
    next
      case (Some c)
      with first have "dfs g n [] st = (Some c, st1)" by simp
      from dfs_some_cyclic(1)[OF this] Cons.prems(2) show ?thesis by simp
    qed
  qed
qed

lemma detectCycles_iff_cyclic: "detectCycles g \<noteq> [] \<longleftrightarrow> cyclic g"
proof
  assume "detectCycles g \<noteq> []"
  then show "cyclic g"
    unfolding detectCycles_def by (rule detect_from_found_cyclic) simp
next
  assume c: "cyclic g"
  show "detectCycles g \<noteq> []"
  proof
    assume "detectCycles g = []"
    then have "detect_from g (map fst g) ([], []) = []" by (simp add: detectCycles_def)
    from detect_from_empty_acyclic[OF this] have "\<forall>x \<in> set (map fst g). (x, x) \<notin> (edges g)\<^sup>+"
      by (simp add: finished_ok_def)
    moreover from c obtain n where n: "(n, n) \<in> (edges g)\<^sup>+" by (auto simp: cyclic_def)
    moreover from cycle_through_key[OF n] have "n \<in> set (map fst g)" by simp
    ultimately show False by blast
  qed
qed


section \<open>Topological sort\<close>

subsection \<open>In-degrees\<close>

lemma distinct_keys_map_set: "distinct (map fst m) \<Longrightarrow> distinct (map fst (map_set m k v))"
proof (induction m)
  case Nil
  then show ?case by simp
next
  case (Cons e m)
  obtain k' v' where e: "e = (k', v')" by (cases e)
  with Cons show ?case by (auto simp: keys_map_set)
qed

lemma degree_or_zero_map_set:
  "degree_or_zero (map_set deg n (Some d)) k = (if k = n then d else degree_or_zero deg k)"
  by (simp add: degree_or_zero_def map_of_map_set)

text \<open>The first loop of \<open>topologicalSort\<close>.\<close>

lemma zero_degrees:
  "map_of (foldl (\<lambda>d node. map_set d node (Some 0)) acc ks) k
     = (if k \<in> set ks then Some (Some 0) else map_of acc k)"
  by (induction ks arbitrary: acc) (auto simp: map_of_map_set)

lemma zero_degrees_keys:
  "fst ` set (foldl (\<lambda>d node. map_set d node (Some 0)) acc ks) = fst ` set acc \<union> set ks"
  by (induction ks arbitrary: acc) (auto simp: keys_map_set)

lemma zero_degrees_distinct:
  "distinct (map fst acc) \<Longrightarrow> distinct (map fst (foldl (\<lambda>d node. map_set d node (Some 0)) acc ks))"
  by (induction ks arbitrary: acc) (auto simp: distinct_keys_map_set)

text \<open>The second loop, for the successors of one entry and for all entries.\<close>

lemma count_edges_value:
  assumes "distinct ns"
  shows "map_of (count_edges deg ns) k
     = (if k \<in> set ns then Some (Some (degree_or_zero deg k + 1)) else map_of deg k)"
  using assms unfolding count_edges_def
proof (induction ns arbitrary: deg)
  case Nil
  then show ?case by simp
next
  case (Cons n ns)
  then show ?case
    by (auto simp: map_of_map_set degree_or_zero_map_set)
qed

lemma count_edges_keys: "fst ` set (count_edges deg ns) = fst ` set deg \<union> set ns"
  unfolding count_edges_def
  by (induction ns arbitrary: deg) (auto simp: keys_map_set)

lemma count_edges_distinct: "distinct (map fst deg) \<Longrightarrow> distinct (map fst (count_edges deg ns))"
  unfolding count_edges_def
  by (induction ns arbitrary: deg) (auto simp: distinct_keys_map_set)

lemma count_all_value:
  assumes "\<forall>e \<in> set es. distinct (snd e)" and "map_of deg k = Some (Some d)"
  shows "map_of (foldl (\<lambda>d e. count_edges d (snd e)) deg es) k
     = Some (Some (d + int (length (filter (\<lambda>e. k \<in> set (snd e)) es))))"
  using assms
proof (induction es arbitrary: deg d)
  case Nil
  then show ?case by simp
next
  case (Cons e es)
  then have de: "distinct (snd e)" and des: "\<forall>e \<in> set es. distinct (snd e)" by auto
  have "map_of (count_edges deg (snd e)) k = Some (Some (d + (if k \<in> set (snd e) then 1 else 0)))"
    using Cons.prems(2) by (simp add: count_edges_value[OF de] degree_or_zero_def)
  from Cons.IH[OF des this] show ?case by simp
qed

lemma count_all_keys:
  "fst ` set (foldl (\<lambda>d e. count_edges d (snd e)) deg es) = fst ` set deg \<union> (\<Union>e \<in> set es. set (snd e))"
  by (induction es arbitrary: deg) (auto simp: count_edges_keys)

lemma count_all_distinct:
  "distinct (map fst deg) \<Longrightarrow> distinct (map fst (foldl (\<lambda>d e. count_edges d (snd e)) deg es))"
  by (induction es arbitrary: deg) (auto simp: count_edges_distinct)

lemma successors_are_keysD:
  "successors_are_keys g \<Longrightarrow> e \<in> set g \<Longrightarrow> set (snd e) \<subseteq> fst ` set g"
  by (auto simp: successors_are_keys_def list_all_iff map_has_def)

lemma inDegrees_value:
  assumes "is_map_of_sets g" and "k \<in> fst ` set g"
  shows "map_of (inDegrees g) k = Some (Some (remaining g [] k))"
proof -
  have d: "\<forall>e \<in> set g. distinct (snd e)" using assms(1) by (simp add: is_map_of_sets_def list_all_iff)
  have z: "map_of (foldl (\<lambda>d node. map_set d node (Some 0)) [] (map fst g)) k = Some (Some 0)"
    using assms(2) by (simp add: zero_degrees)
  from count_all_value[OF d z] show ?thesis
    by (simp add: inDegrees_def remaining_def)
qed

lemma inDegrees_keys:
  assumes "successors_are_keys g"
  shows "fst ` set (inDegrees g) = fst ` set g"
  using successors_are_keysD[OF assms]
  by (auto simp: inDegrees_def count_all_keys zero_degrees_keys)

lemma inDegrees_distinct: "distinct (map fst (inDegrees g))"
  by (simp add: inDegrees_def count_all_distinct zero_degrees_distinct)


subsection \<open>The loop\<close>

lemma release_spec:
  assumes "distinct ns" and "\<forall>n \<in> set ns. \<exists>d. map_of deg n = Some (Some d)"
    and "release ns deg queue = (deg', queue')"
  shows "(\<forall>k. map_of deg' k
            = (if k \<in> set ns then Some (Some (degree_or_zero deg k - 1)) else map_of deg k))
       \<and> queue' = queue @ filter (\<lambda>n. degree_or_zero deg n = 1) ns"
  using assms
proof (induction ns arbitrary: deg queue)
  case Nil
  then show ?case by simp
next
  case (Cons n ns)
  from Cons.prems(2) obtain d where d: "map_of deg n = Some (Some d)" by auto
  let ?deg1 = "map_set deg n (Some (d - 1))"
  let ?q1 = "if d = 1 then queue @ [n] else queue"
  have dm: "degree_minus_one deg n = Some (d - 1)" using d by (simp add: degree_minus_one_def)
  have rel: "release ns ?deg1 ?q1 = (deg', queue')"
    using Cons.prems(3) by (simp add: dm)
  have dist: "distinct ns" and nn: "n \<notin> set ns" using Cons.prems(1) by auto
  have num: "\<forall>m \<in> set ns. \<exists>d. map_of ?deg1 m = Some (Some d)"
    using Cons.prems(2) nn by (auto simp: map_of_map_set)
  note ih = Cons.IH[OF dist num rel]
  have same: "degree_or_zero ?deg1 k = degree_or_zero deg k" if "k \<noteq> n" for k
    using that by (simp add: degree_or_zero_map_set)
  have dz: "degree_or_zero deg n = d" using d by (simp add: degree_or_zero_def)
  have vals: "map_of deg' k
     = (if k \<in> set (n # ns) then Some (Some (degree_or_zero deg k - 1)) else map_of deg k)" for k
  proof (cases "k = n")
    case True
    then show ?thesis using ih nn dz by (simp add: map_of_map_set)
  next
    case False
    then show ?thesis using ih same[OF False] by (simp add: map_of_map_set)
  qed
  have "degree_or_zero ?deg1 m = degree_or_zero deg m" if "m \<in> set ns" for m
    using that nn same by metis
  then have "filter (\<lambda>m. degree_or_zero ?deg1 m = 1) ns = filter (\<lambda>m. degree_or_zero deg m = 1) ns"
    by (intro filter_cong) auto
  then have q: "queue' = queue @ filter (\<lambda>m. degree_or_zero deg m = 1) (n # ns)"
    using ih dz by simp
  from vals q show ?case by blast
qed

lemma count_split:
  assumes "distinct (map fst g)" and "(node, ns) \<in> set g"
  shows "length (filter P g)
     = length (filter (\<lambda>e. fst e \<noteq> node \<and> P e) g) + (if P (node, ns) then 1 else 0)"
  using assms
proof (induction g)
  case Nil
  then show ?case by simp
next
  case (Cons e g)
  show ?case
  proof (cases "e = (node, ns)")
    case True
    then have "node \<notin> fst ` set g" using Cons.prems(1) by auto
    then have "filter (\<lambda>e. fst e \<noteq> node \<and> P e) g = filter P g"
      by (intro filter_cong) force+
    then show ?thesis using True by simp
  next
    case False
    then have mem: "(node, ns) \<in> set g" using Cons.prems(2) by simp
    have "node \<in> fst ` set g" using mem by force
    then have "fst e \<noteq> node" using Cons.prems(1) by auto
    then show ?thesis using Cons.IH mem Cons.prems(1) by simp
  qed
qed

lemma remaining_step:
  assumes "distinct (map fst g)" and "(node, ns) \<in> set g" and "node \<notin> set result"
  shows "remaining g result k = remaining g (result @ [node]) k + (if k \<in> set ns then 1 else 0)"
proof -
  have "filter (\<lambda>e. fst e \<noteq> node \<and> (fst e \<notin> set result \<and> k \<in> set (snd e))) g
      = filter (\<lambda>e. fst e \<notin> set (result @ [node]) \<and> k \<in> set (snd e)) g"
    by (intro filter_cong) auto
  then show ?thesis
    unfolding remaining_def
    using count_split[OF assms(1,2), of "\<lambda>e. fst e \<notin> set result \<and> k \<in> set (snd e)"] assms(3)
    by simp
qed

lemma remaining_zero_iff:
  "remaining g result k = 0 \<longleftrightarrow> (\<forall>e \<in> set g. k \<in> set (snd e) \<longrightarrow> fst e \<in> set result)"
  by (auto simp: remaining_def filter_empty_conv)

lemma entry_neighbors:
  "distinct (map fst g) \<Longrightarrow> e \<in> set g \<Longrightarrow> neighbors g (fst e) = snd e"
  by (cases e) (simp add: neighbors_def)

lemma key_entry:
  "k \<in> fst ` set g \<Longrightarrow> distinct (map fst g) \<Longrightarrow> (k, neighbors g k) \<in> set g"
  using entry_neighbors by fastforce

lemma kahn_inv_step:
  assumes g: "is_map_of_sets g" "successors_are_keys g"
    and inv: "kahn_inv g (node # queue) result deg"
    and rel: "release (neighbors g node) deg queue = (deg', queue')"
  shows "kahn_inv g queue' (result @ [node]) deg'"
proof -
  let ?ns = "neighbors g node"
  let ?K = "fst ` set g"
  have dk: "distinct (map fst g)" using g(1) by (simp add: is_map_of_sets_def)
  have i1: "distinct (result @ node # queue)" and i2: "set (result @ node # queue) \<subseteq> ?K"
    and i3: "\<And>k. k \<in> ?K \<Longrightarrow> map_of deg k = Some (Some (remaining g result k))"
    and i4: "\<And>k. k \<in> ?K \<Longrightarrow> k \<in> set (result @ node # queue) \<longleftrightarrow> remaining g result k = 0"
    and i5: "\<And>e v. e \<in> set g \<Longrightarrow> v \<in> set (snd e) \<Longrightarrow> v \<in> set result
               \<Longrightarrow> comes_before result (fst e) v"
    using inv unfolding kahn_inv_def by blast+
  have nk: "node \<in> ?K" using i2 by simp
  have nr: "node \<notin> set result" and nq: "node \<notin> set queue" using i1 by auto
  have entry: "(node, ?ns) \<in> set g" using key_entry[OF nk dk] .
  have dns: "distinct ?ns" using g(1) entry by (auto simp: is_map_of_sets_def list_all_iff)
  have sub: "set ?ns \<subseteq> ?K" using successors_are_keysD[OF g(2) entry] by simp
  have num: "\<forall>n \<in> set ?ns. \<exists>d. map_of deg n = Some (Some d)" using sub i3 by blast
  from release_spec[OF dns num rel]
  have vals: "\<And>k. map_of deg' k
         = (if k \<in> set ?ns then Some (Some (degree_or_zero deg k - 1)) else map_of deg k)"
    and q': "queue' = queue @ filter (\<lambda>n. degree_or_zero deg n = 1) ?ns" by blast+
  have doz: "degree_or_zero deg k = remaining g result k" if "k \<in> ?K" for k
    using i3[OF that] by (simp add: degree_or_zero_def)
  have step: "remaining g result k
      = remaining g (result @ [node]) k + (if k \<in> set ?ns then 1 else 0)" for k
    by (rule remaining_step[OF dk entry nr])
  let ?new = "filter (\<lambda>n. degree_or_zero deg n = 1) ?ns"
  have new_iff: "k \<in> set ?new \<longleftrightarrow> k \<in> set ?ns \<and> remaining g result k = 1" for k
  proof -
    have "degree_or_zero deg k = remaining g result k" if "k \<in> set ?ns"
      using that sub doz by blast
    then show ?thesis by auto
  qed
  have new_fresh: "k \<notin> set (result @ node # queue)" if "k \<in> set ?new" for k
  proof -
    have "k \<in> ?K" and "remaining g result k = 1" using that sub new_iff by auto
    then show ?thesis using i4[of k] by simp
  qed
  have c1: "distinct ((result @ [node]) @ queue')"
  proof -
    have "distinct ?new" using dns by simp
    moreover have "set ?new \<inter> set (result @ node # queue) = {}" using new_fresh by blast
    ultimately show ?thesis using i1 unfolding q' by auto
  qed
  have c2: "set ((result @ [node]) @ queue') \<subseteq> ?K"
    using i2 sub unfolding q' by auto
  have c3: "map_of deg' k = Some (Some (remaining g (result @ [node]) k))" if "k \<in> ?K" for k
    using vals[of k] i3[OF that] doz[OF that] step[of k] by simp
  have c4: "k \<in> set ((result @ [node]) @ queue') \<longleftrightarrow> remaining g (result @ [node]) k = 0"
    if "k \<in> ?K" for k
  proof (cases "k \<in> set ?ns")
    case True
    have pos: "remaining g result k \<noteq> 0"
      unfolding remaining_zero_iff using entry nr True by force
    then have old: "k \<notin> set (result @ node # queue)" using i4[OF that] by simp
    have "k \<in> set ?new \<longleftrightarrow> remaining g (result @ [node]) k = 0"
      using new_iff[of k] step[of k] True by simp
    then show ?thesis using old unfolding q' by auto
  next
    case False
    then have "k \<notin> set ?new" by simp
    moreover have "remaining g (result @ [node]) k = remaining g result k"
      using step[of k] False by simp
    ultimately show ?thesis using i4[OF that] unfolding q' by auto
  qed
  have c5: "comes_before (result @ [node]) (fst e) v"
    if e: "e \<in> set g" and v: "v \<in> set (snd e)" and vr: "v \<in> set (result @ [node])" for e v
  proof (cases "v \<in> set result")
    case True
    from i5[OF e v True] show ?thesis
      using True by (simp add: comes_before_def takeWhile_append1)
  next
    case False
    then have vn: "v = node" using vr by simp
    have "remaining g result node = 0" using i4[OF nk] by simp
    then have "fst e \<in> set result" using e v vn by (auto simp: remaining_zero_iff)
    moreover have "takeWhile (\<lambda>x. x \<noteq> node) (result @ [node]) = result"
      using nr by (subst takeWhile_append2) auto
    ultimately show ?thesis using vn by (simp add: comes_before_def)
  qed
  show ?thesis
    unfolding kahn_inv_def using c1 c2 c3 c4 c5 by blast
qed

lemma kahn_inv_final:
  "is_map_of_sets g \<Longrightarrow> successors_are_keys g \<Longrightarrow> kahn_inv g queue result deg
     \<Longrightarrow> \<exists>deg'. kahn_inv g [] (kahn g queue result deg) deg'"
proof (induction g queue result deg rule: kahn.induct)
  case (1 g result deg)
  then show ?case by auto
next
  case (2 g node queue result deg)
  obtain deg' queue' where rel: "release (neighbors g node) deg queue = (deg', queue')"
    by (cases "release (neighbors g node) deg queue")
  have "kahn_inv g queue' (result @ [node]) deg'"
    by (rule kahn_inv_step[OF "2.prems"(1,2,3) rel])
  from "2.IH"[OF rel[symmetric] "2.prems"(1,2) this] show ?case
    using rel by simp
qed


subsection \<open>The result\<close>

lemma kahn_inv_initial:
  assumes "is_map_of_sets g" and "successors_are_keys g"
  shows "kahn_inv g (map fst (filter (\<lambda>e. snd e = Some 0) (inDegrees g))) [] (inDegrees g)"
proof -
  let ?deg = "inDegrees g"
  let ?q = "map fst (filter (\<lambda>e. snd e = Some 0) ?deg)"
  have dd: "distinct (map fst ?deg)" by (rule inDegrees_distinct)
  have keys: "fst ` set ?deg = fst ` set g" by (rule inDegrees_keys[OF assms(2)])
  have c1: "distinct ([] @ ?q)" using dd by (simp add: distinct_map_filter)
  have c2: "set ([] @ ?q) \<subseteq> fst ` set g" using keys by auto
  have c3: "map_of ?deg k = Some (Some (remaining g [] k))" if "k \<in> fst ` set g" for k
    by (rule inDegrees_value[OF assms(1) that])
  have c4: "k \<in> set ([] @ ?q) \<longleftrightarrow> remaining g [] k = 0" if "k \<in> fst ` set g" for k
  proof -
    have "k \<in> set ?q \<longleftrightarrow> (k, Some 0) \<in> set ?deg" by force
    also have "\<dots> \<longleftrightarrow> map_of ?deg k = Some (Some 0)" using dd by simp
    also have "\<dots> \<longleftrightarrow> remaining g [] k = 0" using c3[OF that] by simp
    finally show ?thesis by simp
  qed
  show ?thesis unfolding kahn_inv_def using c1 c2 c3 c4 by simp
qed

lemma position_increases:
  "u \<in> set (takeWhile (\<lambda>x. x \<noteq> v) xs)
     \<Longrightarrow> length (takeWhile (\<lambda>x. x \<noteq> u) xs) < length (takeWhile (\<lambda>x. x \<noteq> v) xs)"
  by (induction xs) (auto split: if_splits)

lemma ordered_edges_acyclic:
  assumes "\<And>u v. (u, v) \<in> edges g \<Longrightarrow> comes_before xs u v"
  shows "\<not> cyclic g"
proof -
  let ?pos = "\<lambda>v. length (takeWhile (\<lambda>x. x \<noteq> v) xs)"
  have "?pos a < ?pos b" if "(a, b) \<in> (edges g)\<^sup>+" for a b
    using that
  proof (induction rule: trancl_induct)
    case (base y)
    then show ?case using assms position_increases by (fastforce simp: comes_before_def)
  next
    case (step y z)
    have "?pos y < ?pos z" using assms[OF step.hyps(2)] position_increases
      by (fastforce simp: comes_before_def)
    with step.IH show ?case by simp
  qed
  then show ?thesis unfolding cyclic_def by fastforce
qed

lemma no_source_gives_cycle:
  assumes "finite S" and "S \<noteq> {}" and "\<And>x. x \<in> S \<Longrightarrow> \<exists>y \<in> S. (y, x) \<in> E"
  shows "\<exists>n. (n, n) \<in> E\<^sup>+"
proof (rule ccontr)
  assume "\<not> (\<exists>n. (n, n) \<in> E\<^sup>+)"
  then have ac: "acyclic E" by (simp add: acyclic_def)
  let ?r = "E \<inter> S \<times> S"
  have "acyclic ?r" using ac by (rule acyclic_subset) simp
  moreover have "finite ?r" using assms(1) by simp
  ultimately have "wf ?r" by (simp add: finite_acyclic_wf)
  from assms(2) obtain x where "x \<in> S" by blast
  from wfE_min[OF \<open>wf ?r\<close> this] obtain z where z: "z \<in> S" and min: "\<And>y. (y, z) \<in> ?r \<Longrightarrow> y \<notin> S"
    by blast
  from assms(3)[OF z] obtain y where "y \<in> S" and "(y, z) \<in> E" by blast
  with z min[of y] show False by simp
qed

lemma kahn_sorted:
  assumes g: "is_map_of_sets g" "successors_are_keys g"
    and r: "r = kahn g (map fst (filter (\<lambda>e. snd e = Some 0) (inDegrees g))) [] (inDegrees g)"
  shows "distinct r" and "set r \<subseteq> fst ` set g"
    and "\<And>k. k \<in> fst ` set g \<Longrightarrow> k \<notin> set r \<Longrightarrow> \<exists>u. u \<notin> set r \<and> u \<in> fst ` set g \<and> (u, k) \<in> edges g"
    and "\<And>u v. (u, v) \<in> edges g \<Longrightarrow> v \<in> set r \<Longrightarrow> comes_before r u v"
proof -
  have dk: "distinct (map fst g)" using g(1) by (simp add: is_map_of_sets_def)
  from kahn_inv_final[OF g kahn_inv_initial[OF g]] obtain deg' where inv: "kahn_inv g [] r deg'"
    unfolding r by blast
  show "distinct r" and "set r \<subseteq> fst ` set g" using inv by (simp_all add: kahn_inv_def)
  show "\<exists>u. u \<notin> set r \<and> u \<in> fst ` set g \<and> (u, k) \<in> edges g"
    if "k \<in> fst ` set g" and "k \<notin> set r" for k
  proof -
    have "\<forall>k \<in> fst ` set g. k \<in> set (r @ []) \<longleftrightarrow> remaining g r k = 0"
      using inv unfolding kahn_inv_def by blast
    then have "remaining g r k \<noteq> 0" using that by force
    then obtain e where e: "e \<in> set g" "k \<in> set (snd e)" "fst e \<notin> set r"
      unfolding remaining_zero_iff by blast
    have "(fst e, k) \<in> edges g" using entry_neighbors[OF dk e(1)] e(2) by (simp add: edges_def)
    then show ?thesis using e by blast
  qed
  show "comes_before r u v" if "(u, v) \<in> edges g" and "v \<in> set r" for u v
  proof -
    have v: "v \<in> set (neighbors g u)" using that(1) by (simp add: edges_def)
    then have "u \<in> fst ` set g" using edges_source_is_key[OF that(1)] by simp
    from key_entry[OF this dk] have "(u, neighbors g u) \<in> set g" .
    then show ?thesis using inv v that(2) unfolding kahn_inv_def by fastforce
  qed
qed

lemma edges_target_is_key:
  "successors_are_keys g \<Longrightarrow> distinct (map fst g) \<Longrightarrow> (u, v) \<in> edges g \<Longrightarrow> v \<in> fst ` set g"
proof -
  assume a: "successors_are_keys g" "distinct (map fst g)" "(u, v) \<in> edges g"
  have "u \<in> fst ` set g" using edges_source_is_key[OF a(3)] by simp
  from key_entry[OF this a(2)] successors_are_keysD[OF a(1)] a(3) show ?thesis
    by (fastforce simp: edges_def)
qed

lemma topologicalSort_spec:
  assumes g: "is_map_of_sets g" "successors_are_keys g"
  shows "cyclic g \<Longrightarrow> topologicalSort g = None"
    and "\<not> cyclic g \<Longrightarrow> \<exists>r. topologicalSort g = Some r \<and> distinct r \<and> set r = fst ` set g
            \<and> length r = length g \<and> (\<forall>u v. (u, v) \<in> edges g \<longrightarrow> comes_before r u v)"
proof -
  define r where "r = kahn g (map fst (filter (\<lambda>e. snd e = Some 0) (inDegrees g))) [] (inDegrees g)"
  note s = kahn_sorted[OF g r_def]
  have dk: "distinct (map fst g)" using g(1) by (simp add: is_map_of_sets_def)
  have ts: "topologicalSort g = (if length r \<noteq> length g then None else Some r)"
    by (simp add: topologicalSort_def r_def Let_def)
  have full: "set r = fst ` set g" if "length r = length g"
  proof -
    have "card (set r) = length r" using s(1) by (rule distinct_card)
    moreover have "card (fst ` set g) = length g" using distinct_card[OF dk] by simp
    ultimately show ?thesis using s(2) that by (simp add: card_subset_eq)
  qed
  have ordered: "comes_before r u v" if "set r = fst ` set g" and "(u, v) \<in> edges g" for u v
    using s(4)[OF that(2)] edges_target_is_key[OF g(2) dk that(2)] that(1) by simp
  show "topologicalSort g = None" if "cyclic g"
  proof (rule ccontr)
    assume "topologicalSort g \<noteq> None"
    then have "length r = length g" using ts by (simp split: if_splits)
    from ordered[OF full[OF this]] have "\<not> cyclic g" by (rule ordered_edges_acyclic)
    with that show False by simp
  qed
  show "\<exists>r. topologicalSort g = Some r \<and> distinct r \<and> set r = fst ` set g
          \<and> length r = length g \<and> (\<forall>u v. (u, v) \<in> edges g \<longrightarrow> comes_before r u v)"
    if "\<not> cyclic g"
  proof -
    have all: "set r = fst ` set g"
    proof (rule ccontr)
      assume "set r \<noteq> fst ` set g"
      let ?S = "fst ` set g - set r"
      have ne: "?S \<noteq> {}" using s(2) \<open>set r \<noteq> fst ` set g\<close> by blast
      have fin: "finite ?S" by simp
      have src: "\<exists>y \<in> ?S. (y, x) \<in> edges g" if "x \<in> ?S" for x
        using s(3)[of x] that by blast
      have "\<exists>n. (n, n) \<in> (edges g)\<^sup>+" by (rule no_source_gives_cycle[OF fin ne src])
      with \<open>\<not> cyclic g\<close> show False by (simp add: cyclic_def)
    qed
    have "length r = card (set r)" using s(1) by (simp add: distinct_card)
    also have "\<dots> = length g" using all distinct_card[OF dk] by simp
    finally have len: "length r = length g" .
    show ?thesis using ts len s(1) all ordered[OF all] by simp
  qed
qed


subsection \<open>Graphs built by createGraph and addEdge\<close>

lemma set_map_set_subset: "set (map_set m k v) \<subseteq> insert (k, v) (set m)"
  by (induction m) (auto split: if_splits)

lemma is_map_of_sets_map_set:
  assumes "is_map_of_sets g" and "distinct ns"
  shows "is_map_of_sets (map_set g k ns)"
  using assms set_map_set_subset[of g k ns]
  by (auto simp: is_map_of_sets_def list_all_iff distinct_keys_map_set)

lemma successors_are_keys_map_set:
  assumes "successors_are_keys g" and "set ns \<subseteq> insert k (fst ` set g)"
  shows "successors_are_keys (map_set g k ns)"
proof -
  have "set (snd e) \<subseteq> insert k (fst ` set g)" if "e \<in> set (map_set g k ns)" for e
  proof (cases "e = (k, ns)")
    case True
    then show ?thesis using assms(2) by simp
  next
    case False
    then have "e \<in> set g" using that set_map_set_subset[of g k ns] by auto
    from successors_are_keysD[OF assms(1) this] show ?thesis by auto
  qed
  then show ?thesis
    unfolding successors_are_keys_def list_all_iff map_has_def
    by (auto simp: keys_map_set)
qed

lemma neighbors_distinct: "is_map_of_sets g \<Longrightarrow> distinct (neighbors g n)"
  by (auto simp: neighbors_def is_map_of_sets_def list_all_iff split: option.splits dest!: map_of_SomeD)

lemma neighbors_are_keys: "successors_are_keys g \<Longrightarrow> set (neighbors g n) \<subseteq> fst ` set g"
proof (cases "map_of g n")
  case None
  then show ?thesis by (simp add: neighbors_def)
next
  case (Some ns)
  assume c: "successors_are_keys g"
  from Some have "(n, ns) \<in> set g" by (rule map_of_SomeD)
  from successors_are_keysD[OF c this] Some show ?thesis by (simp add: neighbors_def)
qed

lemma createGraph_well_formed:
  "is_map_of_sets (createGraph nodes) \<and> successors_are_keys (createGraph nodes)"
proof -
  have "is_map_of_sets (foldl (\<lambda>g node. map_set g node []) acc nodes)
      \<and> successors_are_keys (foldl (\<lambda>g node. map_set g node []) acc nodes)"
    if "is_map_of_sets acc" and "successors_are_keys acc" for acc :: "'a graph"
    using that
    by (induction nodes arbitrary: acc)
       (simp_all add: is_map_of_sets_map_set successors_are_keys_map_set)
  from this[of "[]"] show ?thesis
    by (simp add: createGraph_def is_map_of_sets_def successors_are_keys_def)
qed

lemma addEdge_well_formed:
  assumes "is_map_of_sets g" and "successors_are_keys g"
  shows "is_map_of_sets (addEdge g a b) \<and> successors_are_keys (addEdge g a b)"
proof -
  define g1 where "g1 = (if map_has g a then g else map_set g a [])"
  define g2 where "g2 = (if map_has g1 b then g1 else map_set g1 b [])"
  have w1: "is_map_of_sets g1" "successors_are_keys g1"
    using assms by (simp_all add: g1_def is_map_of_sets_map_set successors_are_keys_map_set)
  have w2: "is_map_of_sets g2" "successors_are_keys g2"
    using w1 by (simp_all add: g2_def is_map_of_sets_map_set successors_are_keys_map_set)
  have b: "b \<in> fst ` set g2" by (auto simp: g2_def map_has_def keys_map_set)
  have d: "distinct (add_node (neighbors g2 a) b)"
    using neighbors_distinct[OF w2(1), of a] by (simp add: add_node_def)
  have s: "set (add_node (neighbors g2 a) b) \<subseteq> insert a (fst ` set g2)"
    using neighbors_are_keys[OF w2(2), of a] b by (auto simp: add_node_def)
  have "addEdge g a b = map_set g2 a (add_node (neighbors g2 a) b)"
    by (simp add: addEdge_def g1_def g2_def Let_def)
  then show ?thesis
    using is_map_of_sets_map_set[OF w2(1) d] successors_are_keys_map_set[OF w2(2) s] by simp
qed

subsection \<open>Sorting and cycle detection\<close>

text \<open>In a graph whose every successor is a key, as \<open>createGraph\<close> and \<open>addEdge\<close> build
  them, \<open>topologicalSort\<close> returns \<open>null\<close> when the graph contains a cycle, and otherwise
  a sequence without repetition that holds exactly the keys and in which, for every edge
  \<open>(u, v)\<close>, \<open>u\<close> comes before \<open>v\<close>.\<close>

theorem topologicalSort_on_closed_graphs:
  assumes "is_map_of_sets g" and "successors_are_keys g"
  shows "(cyclic g \<longrightarrow> topologicalSort g = None)
       \<and> (\<not> cyclic g \<longrightarrow>
            (\<exists>order. topologicalSort g = Some order
               \<and> distinct order \<and> set order = set (map fst g) \<and> length order = length g
               \<and> (\<forall>u v. v \<in> set (neighbors g u) \<longrightarrow> comes_before order u v)))"
  using topologicalSort_spec[OF assms] by (simp add: edges_def)

theorem topologicalSort_on_closed_graphs_witness:
  "is_map_of_sets [(3::nat, []), (2, [3]), (1, [2])]
   \<and> successors_are_keys [(3::nat, []), (2, [3]), (1, [2])]
   \<and> \<not> cyclic [(3::nat, []), (2, [3]), (1, [2])]
   \<and> topologicalSort [(3::nat, []), (2, [3]), (1, [2])] = Some [1, 2, 3]
   \<and> is_map_of_sets [(1::nat, [2]), (2, [1])]
   \<and> successors_are_keys [(1::nat, [2]), (2, [1])]
   \<and> cyclic [(1::nat, [2]), (2, [1])]
   \<and> topologicalSort [(1::nat, [2]), (2, [1])] = None"
proof -
  let ?a = "[(3::nat, []), (2, [3]), (1, [2])]"
  let ?c = "[(1::nat, [2]), (2, [1])]"
  have a1: "is_map_of_sets ?a" by code_simp
  have a2: "successors_are_keys ?a" by code_simp
  have a3: "topologicalSort ?a = Some [1, 2, 3]" by code_simp
  have c1: "is_map_of_sets ?c" by code_simp
  have c2: "successors_are_keys ?c" by code_simp
  have c3: "topologicalSort ?c = None" by code_simp
  have a4: "\<not> cyclic ?a" using topologicalSort_on_closed_graphs[OF a1 a2] a3 by auto
  have c4: "cyclic ?c" using topologicalSort_on_closed_graphs[OF c1 c2] c3 by auto
  from a1 a2 a3 a4 c1 c2 c3 c4 show ?thesis by blast
qed

text \<open>On these graphs \<open>topologicalSort\<close> returns \<open>null\<close> exactly when \<open>detectCycles\<close>
  returns a non-empty collection, and \<open>isAcyclic\<close> holds exactly when \<open>topologicalSort\<close>
  returns a sequence.\<close>

theorem topologicalSort_agrees_with_detectCycles:
  assumes "is_map_of_sets g" and "successors_are_keys g"
  shows "(topologicalSort g = None \<longleftrightarrow> detectCycles g \<noteq> [])
       \<and> (isAcyclic g \<longleftrightarrow> topologicalSort g \<noteq> None)"
proof -
  have n: "topologicalSort g = None" if "cyclic g"
    using that by (rule topologicalSort_spec(1)[OF assms])
  have s: "\<exists>r. topologicalSort g = Some r" if "\<not> cyclic g"
    using topologicalSort_spec(2)[OF assms that] by blast
  have "topologicalSort g = None \<longleftrightarrow> cyclic g"
    using n s by (cases "cyclic g") auto
  then show ?thesis using detectCycles_iff_cyclic[of g] by (auto simp: isAcyclic_def)
qed

theorem topologicalSort_agrees_with_detectCycles_witness:
  "is_map_of_sets [(1::nat, [2, 3]), (2, [3]), (3, [])]
   \<and> successors_are_keys [(1::nat, [2, 3]), (2, [3]), (3, [])]
   \<and> detectCycles [(1::nat, [2, 3]), (2, [3]), (3, [])] = []
   \<and> topologicalSort [(1::nat, [2, 3]), (2, [3]), (3, [])] \<noteq> None
   \<and> isAcyclic [(1::nat, [2, 3]), (2, [3]), (3, [])]"
proof -
  let ?a = "[(1::nat, [2, 3]), (2, [3]), (3, [])]"
  have a1: "is_map_of_sets ?a" by code_simp
  have a2: "successors_are_keys ?a" by code_simp
  have a3: "detectCycles ?a = []" by code_simp
  from topologicalSort_agrees_with_detectCycles[OF a1 a2] a1 a2 a3 show ?thesis by simp
qed

subsection \<open>A successor that is not a key\<close>

text \<open>
  C8. The \<open>Map\<close> with the single key 1 and the single edge from 1 to 2 has no cycle. The
  loops of \<open>topologicalSort\<close> provide for the successor 2 that is no key: it gets its
  in-degree through \<open>(inDegree.get(neighbor) || 0) + 1\<close> and is taken off the queue
  through \<open>graph.get(node) || new Set()\<close>, so that the result is built in full, 1 before 2.
  The last test then compares its length, 2, with \<open>graph.size\<close>, which counts the keys
  only, and the function returns \<open>null\<close>, which its comment reads as a cycle.
\<close>

theorem dangling_successor_sorts_to_null:
  "is_map_of_sets [(1::nat, [2])] \<and> \<not> cyclic [(1::nat, [2])]
   \<and> inDegrees [(1::nat, [2])] = [(1, Some 0), (2, Some 1)]
   \<and> kahn [(1::nat, [2])] [1] [] (inDegrees [(1::nat, [2])]) = [1, 2]
   \<and> length [(1::nat, [2])] = 1
   \<and> topologicalSort [(1::nat, [2])] = None"
proof -
  have "detectCycles [(1::nat, [2])] = []" by code_simp
  then have "\<not> cyclic [(1::nat, [2])]" using detectCycles_iff_cyclic[of "[(1::nat, [2])]"] by simp
  moreover have "is_map_of_sets [(1::nat, [2])]" by code_simp
  moreover have "inDegrees [(1::nat, [2])] = [(1, Some 0), (2, Some 1)]" by code_simp
  moreover have "kahn [(1::nat, [2])] [1] [] (inDegrees [(1::nat, [2])]) = [1, 2]" by code_simp
  moreover have "topologicalSort [(1::nat, [2])] = None" by code_simp
  ultimately show ?thesis by simp
qed

text \<open>
  C9. On the same \<open>Map\<close> the two routines disagree: \<open>detectCycles\<close> finds no cycle and
  \<open>isAcyclic\<close> holds, and \<open>topologicalSort\<close> returns \<open>null\<close>. The graph has no cycle, so
  it is \<open>topologicalSort\<close> that is wrong.
\<close>

theorem dangling_successor_routines_disagree:
  "detectCycles [(1::nat, [2])] = [] \<and> isAcyclic [(1::nat, [2])]
   \<and> topologicalSort [(1::nat, [2])] = None
   \<and> \<not> cyclic [(1::nat, [2])]"
proof -
  have d: "detectCycles [(1::nat, [2])] = []" by code_simp
  then have "\<not> cyclic [(1::nat, [2])]" using detectCycles_iff_cyclic[of "[(1::nat, [2])]"] by simp
  moreover have "isAcyclic [(1::nat, [2])]" using d by (simp add: isAcyclic_def)
  moreover have "topologicalSort [(1::nat, [2])] = None" by code_simp
  ultimately show ?thesis using d by simp
qed

end
